theory Spec2Isabelle
  imports Main
begin

section \<open>Lifting matrices from SL(Z/N) to SL(Z): the module liftings.py\<close>

subsection \<open>Errors\<close>

text \<open>
  The Python exceptions that the module and the primitives it calls can raise. A
  \<open>ValueError\<close> carries its message. \<open>NonTermination\<close> stands for a loop of a
  primitive that never leaves its state.
\<close>

datatype error =
    ValueError string
  | ZeroDivisionError
  | IndexError
  | AttributeError
  | ArithmeticError
  | TypeError
  | NonTermination

text \<open>Sequencing of fallible steps: the first exception ends the computation.\<close>

definition bind_err :: "error + 'a \<Rightarrow> ('a \<Rightarrow> error + 'b) \<Rightarrow> error + 'b" where
  "bind_err x f = (case x of Inl e \<Rightarrow> Inl e | Inr v \<Rightarrow> f v)"

subsection \<open>Decimal rendering of integers, for the error message\<close>

definition digit_char :: "nat \<Rightarrow> char" where
  "digit_char k = ''0123456789'' ! k"

function show_nat :: "nat \<Rightarrow> string" where
  "show_nat k = (if k < 10 then [digit_char k] else show_nat (k div 10) @ [digit_char (k mod 10)])"
  by pat_completeness auto
termination
  by (relation "measure (\<lambda>k. k)") auto

definition show_int :: "int \<Rightarrow> string" where
  "show_int i = (if i < 0 then CHR ''-'' # show_nat (nat (- i)) else show_nat (nat i))"

text \<open>The message of line 65: \<^verbatim>\<open>"Determinant is {0} mod {1}, should be 1".format(det, m)\<close>.\<close>

definition det_message :: "int \<Rightarrow> int \<Rightarrow> string" where
  "det_message det m = ''Determinant is '' @ show_int det @ '' mod '' @ show_int m @ '', should be 1''"

subsection \<open>The arithmetic primitives the module imports\<close>

text \<open>
  Modelled from the spec: the extended Euclidean algorithm behind \<^verbatim>\<open>crt\<close>,
  \<^verbatim>\<open>inverse_mod\<close> and \<^verbatim>\<open>lift_to_sl2z\<close> (sage.arith, sage.modular.modsym.p1list) is not
  among the sources; the spec calls the primitives "continued-fraction / extended-Euclid
  based". \<open>xgcd a b\<close> is \<open>(g, s, t)\<close> with \<open>g = gcd a b\<close> and \<open>s * a + t * b = g\<close>, computed
  by the iterative algorithm on the absolute values.
\<close>

function xgcd_loop :: "int \<Rightarrow> int \<Rightarrow> int \<Rightarrow> int \<Rightarrow> int \<Rightarrow> int \<Rightarrow> int \<times> int \<times> int" where
  "xgcd_loop a b p q r s =
     (if b = 0 then (a, p, q)
      else xgcd_loop b (a mod b) r s (p - (a div b) * r) (q - (a div b) * s))"
  by pat_completeness auto
termination
  by (relation "measure (\<lambda>(a, b, p, q, r, s). nat \<bar>b\<bar>)") (auto simp: abs_mod_less)

definition xgcd :: "int \<Rightarrow> int \<Rightarrow> int \<times> int \<times> int" where
  "xgcd a b = (case xgcd_loop \<bar>a\<bar> \<bar>b\<bar> 1 0 0 1 of (g, s, t) \<Rightarrow> (g, s * sgn a, t * sgn b))"

text \<open>
  Modelled from the spec: \<^verbatim>\<open>crt\<close> (sage.arith) is not among the sources. The spec: "given
  residues modulo two coprime moduli, produce the unique residue modulo their product
  satisfying both". \<open>crt a b m n\<close> is the solution of \<open>x \<equiv> a (mod m)\<close>, \<open>x \<equiv> b (mod n)\<close> in
  the range from \<open>0\<close> below \<open>lcm m n\<close> (the product, for coprime moduli); where the two
  congruences have no common solution it raises a \<open>ValueError\<close>.
\<close>

definition crt :: "int \<Rightarrow> int \<Rightarrow> int \<Rightarrow> int \<Rightarrow> error + int" where
  "crt a b m n =
     (case xgcd m n of (g, alpha, beta) \<Rightarrow>
        if g = 0 then Inl ZeroDivisionError
        else if (b - a) mod g \<noteq> 0 then Inl (ValueError ''No solution to crt problem'')
        else if lcm m n = 0 then Inl ZeroDivisionError
        else Inr ((a + ((b - a) div g) * alpha * m) mod lcm m n))"

text \<open>
  Modelled from the spec: \<^verbatim>\<open>inverse_mod\<close> (sage.arith) is not among the sources. The spec:
  "modular inverse of an integer modulo a prime". \<open>inverse_mod a m\<close> is the inverse of \<open>a\<close>
  modulo \<open>m\<close> in the range from \<open>0\<close> below \<open>\<bar>m\<bar>\<close>, and a \<open>ZeroDivisionError\<close> where \<open>a\<close> has
  no inverse.
\<close>

definition inverse_mod :: "int \<Rightarrow> int \<Rightarrow> error + int" where
  "inverse_mod a m =
     (if m = 0 then Inl ZeroDivisionError
      else case xgcd a m of (g, s, t) \<Rightarrow>
        if g \<noteq> 1 then Inl ZeroDivisionError else Inr (s mod \<bar>m\<bar>))"

text \<open>
  The loop \<^verbatim>\<open>while True: g = gcd(m, d); if g == 1: break; m = m / g\<close> of the lifting
  primitive: it removes from \<open>m\<close> every factor it shares with \<open>d\<close>. From \<open>m = 0\<close> with
  \<open>gcd 0 d \<noteq> 1\<close> the loop never leaves its state, which is the value \<open>None\<close>.
\<close>

function prime_to_part :: "int \<Rightarrow> int \<Rightarrow> int option" where
  "prime_to_part m d =
     (if gcd m d = 1 then Some m
      else if m = 0 then None
      else prime_to_part (m div gcd m d) d)"
  by pat_completeness auto
termination
proof (relation "measure (\<lambda>(m, d). nat \<bar>m\<bar>)")
  show "wf (measure (\<lambda>(m, d). nat \<bar>m\<bar>))" by simp
next
  fix m d :: int
  assume g1: "gcd m d \<noteq> 1" and m0: "m \<noteq> 0"
  have gpos: "0 < gcd m d" using m0 by (simp add: gcd_pos_int)
  with g1 have g2: "2 \<le> gcd m d" by linarith
  have "m div gcd m d * gcd m d = m" by simp
  then have "\<bar>m\<bar> = \<bar>m div gcd m d\<bar> * gcd m d"
    using gpos by (metis abs_mult abs_of_pos)
  moreover have "0 < \<bar>m div gcd m d\<bar>"
    using m0 \<open>m div gcd m d * gcd m d = m\<close> by (metis mult_zero_left zero_less_abs_iff)
  ultimately have "\<bar>m div gcd m d\<bar> < \<bar>m\<bar>"
    using g2 by (metis mult.right_neutral mult_strict_left_mono one_less_numeral_iff order_less_le_trans semiring_norm(76))
  then show "((m div gcd m d, d), (m, d)) \<in> measure (\<lambda>(m, d). nat \<bar>m\<bar>)"
    by simp
qed

text \<open>
  Modelled from the spec: \<^verbatim>\<open>lift_to_sl2z\<close> (sage.modular.modsym.p1list) is not among the
  sources. The spec: an "elementary lifting primitive (continued-fraction / extended-Euclid
  based)" that finds a matrix of determinant 1 with the prescribed bottom row. The bottom
  row \<open>(c, d)\<close> is kept as it is when \<open>gcd c d = 1\<close>. Otherwise no matrix of determinant 1
  has that bottom row, and the primitive moves the row within its class modulo \<open>N\<close>: a zero
  entry becomes \<open>N\<close>, and \<open>d\<close> becomes \<open>d + N * m\<close> for \<open>m\<close> the part of \<open>c\<close> prime to \<open>d\<close> and to
  \<open>N\<close>. The integers are unbounded, as the spec's data model has them.
\<close>

definition lift_to_sl2z :: "int \<Rightarrow> int \<Rightarrow> int \<Rightarrow> error + int list" where
  "lift_to_sl2z c d N =
     (if c = 0 \<and> d = 0 then Inl AttributeError
      else case xgcd c d of (g, z1, z2) \<Rightarrow>
        if g = 1 then Inr [z2, - z1, c, d]
        else
          let c' = (if c = 0 then c + N else c);
              d' = (if d = 0 then d + N else d)
          in case prime_to_part c' d' of None \<Rightarrow> Inl NonTermination
             | Some m1 \<Rightarrow>
                (case prime_to_part m1 N of None \<Rightarrow> Inl NonTermination
                 | Some m2 \<Rightarrow>
                    (case xgcd c' (d' + N * m2) of (g', y1, y2) \<Rightarrow>
                       if g' \<noteq> 1 then Inl (ValueError ''input must have gcd 1'')
                       else Inr [y2, - y1, c', d' + N * m2])))"

subsection \<open>The 2x2 lifts\<close>

text \<open>
  \<^verbatim>\<open>lift_to_gamma1(g, m, n)\<close>, lines 60 to 70. The test \<open>m = 1\<close> comes first, before \<open>g\<close> is
  unpacked; unpacking a list that has not four entries raises a \<open>ValueError\<close>; \<open>% m\<close>
  raises for \<open>m = 0\<close>.
\<close>

definition lift_to_gamma1 :: "int list \<Rightarrow> int \<Rightarrow> int \<Rightarrow> error + int list" where
  "lift_to_gamma1 g m n =
     (if m = 1 then Inr [1, 0, 0, 1]
      else case g of
        [a, b, c, d] \<Rightarrow>
          if m = 0 then Inl ZeroDivisionError
          else
            let det = (a * d - b * c) mod m in
            if det \<noteq> 1 then Inl (ValueError (det_message det m))
            else
              bind_err (crt c 0 m n) (\<lambda>c2.
              bind_err (crt d 1 m n) (\<lambda>d2.
              bind_err (lift_to_sl2z c2 d2 (m * n)) (\<lambda>l.
                case l of
                  [a3, b3, c3, d3] \<Rightarrow>
                    let r = (a3 * b - b3 * a) mod m
                    in Inr [a3 + r * c3, b3 + r * d3, c3, d3]
                | _ \<Rightarrow> Inl (ValueError ''unpack''))))
      | _ \<Rightarrow> Inl (ValueError ''unpack''))"

text \<open>\<^verbatim>\<open>lift_matrix_to_sl2z(A, N)\<close>, line 93.\<close>

definition lift_matrix_to_sl2z :: "int list \<Rightarrow> int \<Rightarrow> error + int list" where
  "lift_matrix_to_sl2z A N = lift_to_gamma1 A N 1"

text \<open>\<^verbatim>\<open>lift_gen_to_gamma1(m, n)\<close>, line 120.\<close>

definition lift_gen_to_gamma1 :: "int \<Rightarrow> int \<Rightarrow> error + int list" where
  "lift_gen_to_gamma1 m n = lift_to_gamma1 [0, - 1, 1, 0] m n"

text \<open>\<^verbatim>\<open>lift_uniformiser_odd(p, u, n)\<close>, lines 140 and 141.\<close>

definition lift_uniformiser_odd :: "int \<Rightarrow> nat \<Rightarrow> int \<Rightarrow> error + int list" where
  "lift_uniformiser_odd p u n =
     bind_err (lift_gen_to_gamma1 (p ^ u) n) (\<lambda>g.
       if length g < 4 then Inl IndexError
       else Inr [p * (g ! 0), g ! 1, p * (g ! 2), g ! 3])"

text \<open>
  \<^verbatim>\<open>lift_ramified(g, p, u, n)\<close>, lines 165 to 170. The quotient \<^verbatim>\<open>(c - g[2]) / p**u\<close> is
  a rational number in Sage; where it is not an integer the reduction inside \<^verbatim>\<open>crt\<close> has
  no value and raises, which the model has as \<open>ArithmeticError\<close>.
\<close>

definition lift_ramified :: "int list \<Rightarrow> int \<Rightarrow> nat \<Rightarrow> int \<Rightarrow> error + int list" where
  "lift_ramified g p u n =
     bind_err (lift_to_gamma1 g (p ^ u) n) (\<lambda>l.
       case l of
         [a, b, c, d] \<Rightarrow>
           if length g < 3 then Inl IndexError
           else if p ^ u = 0 then Inl ZeroDivisionError
           else
             bind_err (inverse_mod a p) (\<lambda>i.
               if \<not> p ^ u dvd (c - g ! 2) then Inl ArithmeticError
               else
                 bind_err (crt ((c - g ! 2) div p ^ u * i) 0 p n) (\<lambda>r.
                   Inr [a, b, c - p ^ u * r * a, d - p ^ u * r * b]))
       | _ \<Rightarrow> Inl (ValueError ''unpack''))"

subsection \<open>Primality, as the callers of the ramified lifts assume it\<close>

definition is_prime :: "int \<Rightarrow> bool" where
  "is_prime p = (1 < p \<and> (\<forall>k \<in> {2..<p}. \<not> k dvd p))"

subsection \<open>Integer matrices\<close>

text \<open>
  Modelled from the spec: the matrices of Sage (sage.matrix) are not among the sources. A
  matrix over the integers is the list of its rows; \<open>square_mat n A\<close> says that \<open>A\<close> has
  \<open>n\<close> rows of \<open>n\<close> entries each. \<open>mk_mat n f\<close> is the \<open>n\<close>-by-\<open>n\<close> matrix with entry \<open>f i j\<close> in
  row \<open>i\<close> and column \<open>j\<close>.
\<close>

type_synonym mat = "int list list"

definition square_mat :: "nat \<Rightarrow> mat \<Rightarrow> bool" where
  "square_mat n A = (length A = n \<and> (\<forall>r \<in> set A. length r = n))"

definition mk_mat :: "nat \<Rightarrow> (nat \<Rightarrow> nat \<Rightarrow> int) \<Rightarrow> mat" where
  "mk_mat n f = map (\<lambda>i. map (f i) [0..<n]) [0..<n]"

text \<open>
  Modelled from the spec: the product \<^verbatim>\<open>A * B\<close> of Sage's matrices, for two square matrices
  of the same size.
\<close>

definition mat_mul :: "mat \<Rightarrow> mat \<Rightarrow> mat" where
  "mat_mul A B = mk_mat (length A) (\<lambda>i j. \<Sum>k<length A. A ! i ! k * B ! k ! j)"

text \<open>
  Modelled from the spec: the constructors \<^verbatim>\<open>identity_matrix\<close>, \<^verbatim>\<open>diagonal_matrix\<close> and
  \<^verbatim>\<open>block_diagonal_matrix\<close> of sage.matrix.special, which line 208 imports.
\<close>

definition identity_matrix :: "nat \<Rightarrow> mat" where
  "identity_matrix n = mk_mat n (\<lambda>i j. if i = j then 1 else 0)"

definition diagonal_matrix :: "int list \<Rightarrow> mat" where
  "diagonal_matrix ds = mk_mat (length ds) (\<lambda>i j. if i = j then ds ! i else 0)"

definition block_diagonal_matrix :: "mat \<Rightarrow> mat \<Rightarrow> mat" where
  "block_diagonal_matrix A B =
     mk_mat (length A + length B)
       (\<lambda>i j. if i < length A \<and> j < length A then A ! i ! j
              else if length A \<le> i \<and> length A \<le> j then B ! (i - length A) ! (j - length A)
              else 0)"

text \<open>
  Modelled from the spec: the assignment \<^verbatim>\<open>A[i, j] = v\<close> to an entry of a Sage matrix. The
  lift uses it with indices 0 and 1 on matrices with at least two rows, and with index 0 on
  a matrix with at least one row; the matrix without rows, where line 226 raises, is a case
  of its own there.
\<close>

definition set_entry :: "mat \<Rightarrow> nat \<Rightarrow> nat \<Rightarrow> int \<Rightarrow> mat" where
  "set_entry A i j v = A[i := (A ! i)[j := v]]"

text \<open>
  Modelled from the spec: the determinant \<^verbatim>\<open>A.det()\<close> of a Sage matrix, by expansion along
  the first column: the entry of row \<open>i\<close> times the determinant of what is left without row
  \<open>i\<close> and the first column, with alternating signs. The matrix without rows has
  determinant 1.
\<close>

definition del_row :: "nat \<Rightarrow> 'a list \<Rightarrow> 'a list" where
  "del_row i A = take i A @ drop (Suc i) A"

function det :: "mat \<Rightarrow> int" where
  "det A = (if A = [] then 1
            else (\<Sum>i<length A. (- 1) ^ i * (A ! i ! 0) * det (map tl (del_row i A))))"
  by pat_completeness auto
termination
  by (relation "measure length") (auto simp: del_row_def)

declare det.simps [simp del]

subsection \<open>The Smith form\<close>

text \<open>
  Modelled from the spec: \<^verbatim>\<open>A.smith_form()\<close> (sage.matrix) is not among the sources. The
  spec: a decomposition "with U, V unimodular and D diagonal", which "canonicalizes the
  elementary divisors"; line 221 of the module, \<^verbatim>\<open>D = U * A * V\<close>, fixes on which side the
  transformations stand. The model is the textbook algorithm. Pivot after pivot it clears
  the column and the row of the pivot by operations on two rows or two columns, recorded in
  \<open>U\<close> and \<open>V\<close>: an exchange when the pivot is zero, a subtraction of a multiple when the
  pivot divides the entry, and the combination that leaves their greatest common divisor
  otherwise. A pivot that does not divide an entry further down gets the row of that entry
  added, so that each diagonal entry divides the next. At the end the columns of the
  negative diagonal entries change sign. An exchange and a change of sign have determinant
  -1: the transformations are unimodular, of determinant 1 or -1, and that is the case
  lines 216 to 220 of the module are written for.
\<close>

text \<open>
  \<open>elem_mat n i j p q r s\<close> is the identity matrix of size \<open>n\<close> with the entries at the
  crossings of rows and columns \<open>i\<close> and \<open>j\<close> replaced by \<open>p, q, r, s\<close>. From the left it
  replaces rows \<open>i\<close> and \<open>j\<close> by two combinations of them, from the right (transposed) it does
  the same to two columns.
\<close>

definition elem_mat :: "nat \<Rightarrow> nat \<Rightarrow> nat \<Rightarrow> int \<Rightarrow> int \<Rightarrow> int \<Rightarrow> int \<Rightarrow> mat" where
  "elem_mat n i j p q r s =
     mk_mat n (\<lambda>a b. if a = i then (if b = i then p else if b = j then q else 0)
                      else if a = j then (if b = i then r else if b = j then s else 0)
                      else (if a = b then 1 else 0))"

text \<open>
  The coefficients that clear the entry \<open>y\<close> against the pivot \<open>x\<close>: a zero pivot is exchanged
  with the entry (\<open>p * s - q * r = - 1\<close>), a pivot that divides \<open>y\<close> is kept, and any other
  pivot becomes \<open>gcd x y\<close> (\<open>p * s - q * r = 1\<close> in both cases).
\<close>

definition elim_coeffs :: "int \<Rightarrow> int \<Rightarrow> int \<times> int \<times> int \<times> int" where
  "elim_coeffs x y =
     (if x = 0 then (0, 1, 1, 0)
      else if x dvd y then (1, 0, - (y div x), 1)
      else case xgcd x y of (g, a, b) \<Rightarrow> (a, b, - (y div g), x div g))"

text \<open>
  One step at the pivot \<open>t\<close>, on the triple \<open>(U, A, V)\<close>: the first nonzero entry below the
  pivot is cleared by a row operation, recorded in \<open>U\<close>; when the column is clear, the first
  nonzero entry to the right of the pivot is cleared by a column operation, recorded in
  \<open>V\<close>; when both are clear and the pivot does not divide an entry in row \<open>k\<close> and column
  \<open>j\<close> further down, row \<open>k\<close> is added to the row of the pivot and the entry, now in that
  row, is cleared by a column operation; otherwise there is nothing to do, the value
  \<open>None\<close>.
\<close>

definition diag_step :: "nat \<Rightarrow> nat \<Rightarrow> mat \<times> mat \<times> mat \<Rightarrow> (mat \<times> mat \<times> mat) option" where
  "diag_step n t S =
     (case S of (U, A, V) \<Rightarrow>
        (case find (\<lambda>k. A ! k ! t \<noteq> 0) [Suc t..<n] of
           Some k \<Rightarrow>
             (case elim_coeffs (A ! t ! t) (A ! k ! t) of (p, q, r, s) \<Rightarrow>
                Some (mat_mul (elem_mat n t k p q r s) U, mat_mul (elem_mat n t k p q r s) A, V))
         | None \<Rightarrow>
             (case find (\<lambda>j. A ! t ! j \<noteq> 0) [Suc t..<n] of
                Some j \<Rightarrow>
                  (case elim_coeffs (A ! t ! t) (A ! t ! j) of (p, q, r, s) \<Rightarrow>
                     Some (U, mat_mul A (elem_mat n t j p r q s), mat_mul V (elem_mat n t j p r q s)))
              | None \<Rightarrow>
                  (case find (\<lambda>(k, j). \<not> A ! t ! t dvd A ! k ! j)
                          (List.product [Suc t..<n] [Suc t..<n]) of
                     Some (k, j) \<Rightarrow>
                       (case elim_coeffs (A ! t ! t) (A ! k ! j) of (p, q, r, s) \<Rightarrow>
                          Some (mat_mul (elem_mat n t k 1 1 0 1) U,
                                mat_mul (mat_mul (elem_mat n t k 1 1 0 1) A) (elem_mat n t j p r q s),
                                mat_mul V (elem_mat n t j p r q s)))
                   | None \<Rightarrow> None))))"

text \<open>
  The loop: steps at the pivot \<open>t\<close> until its row and column are clear, then the next pivot;
  it stops after the last pivot, and at once on a matrix that is not square of size \<open>n\<close>.
  That it ends is proved below, once the effect of a step on the matrix is known: a step
  makes a zero pivot nonzero, or the absolute value of the pivot smaller, or, with the pivot
  unchanged, the number of nonzero entries in its row and column smaller.
\<close>

definition crossc :: "nat \<Rightarrow> nat \<Rightarrow> mat \<Rightarrow> nat" where
  "crossc n t A = length (filter (\<lambda>k. A ! k ! t \<noteq> 0) [Suc t..<n])
                + length (filter (\<lambda>j. A ! t ! j \<noteq> 0) [Suc t..<n])"

definition diag_measure :: "nat \<Rightarrow> nat \<Rightarrow> mat \<Rightarrow> nat \<times> nat \<times> nat" where
  "diag_measure n t A = ((if A ! t ! t = 0 then 1 else 0), nat \<bar>A ! t ! t\<bar>, crossc n t A)"

function diag_loop :: "nat \<Rightarrow> nat \<Rightarrow> mat \<times> mat \<times> mat \<Rightarrow> mat \<times> mat \<times> mat" where
  "diag_loop n t S =
     (if \<not> (t < n \<and> square_mat n (fst (snd S))) then S
      else case diag_step n t S of
        Some S' \<Rightarrow> diag_loop n t S'
      | None \<Rightarrow> diag_loop n (Suc t) S)"
  by pat_completeness auto

text \<open>
  The loop started at the first pivot with identity matrices on both sides: a diagonal
  matrix \<open>D = U * A * V\<close> in which each entry divides the next, up to the signs.
\<close>

definition diagonalise :: "mat \<Rightarrow> mat \<times> mat \<times> mat" where
  "diagonalise A =
     (case diag_loop (length A) 0 (identity_matrix (length A), A, identity_matrix (length A)) of
        (U, D, V) \<Rightarrow> (D, U, V))"

text \<open>
  Modelled from the spec: the result \<^verbatim>\<open>D, U, V\<close> of \<^verbatim>\<open>A.smith_form()\<close>, in the order of
  line 215. The columns of the negative diagonal entries change sign, in \<open>D\<close> and in \<open>V\<close>.
\<close>

definition smith_form :: "mat \<Rightarrow> mat \<times> mat \<times> mat" where
  "smith_form A =
     (case diagonalise A of (D, U, V) \<Rightarrow>
        let S = diagonal_matrix (map (\<lambda>i. if D ! i ! i < 0 then - 1 else 1) [0..<length A])
        in (mat_mul D S, U, mat_mul V S))"

text \<open>
  Modelled from the spec: the inverse \<^verbatim>\<open>~M\<close> followed by \<^verbatim>\<open>change_ring(ZZ)\<close> at line 245.
  With \<open>U * M * V = D\<close> diagonal, as the loop of the Smith form leaves it, the inverse of
  \<open>M\<close> is \<open>V\<close> times the inverse of \<open>D\<close> times \<open>U\<close>. It has integer entries when every
  diagonal entry is 1 or -1, and then \<open>D\<close> is its own inverse. A zero on the diagonal is a
  singular matrix, Sage's \<^verbatim>\<open>ZeroDivisionError\<close>; any other diagonal gives an inverse with
  fractions, which \<^verbatim>\<open>change_ring(ZZ)\<close> refuses.
\<close>

definition mat_inverse :: "mat \<Rightarrow> error + mat" where
  "mat_inverse M =
     (case diagonalise M of (D, U, V) \<Rightarrow>
        if list_all (\<lambda>i. \<bar>D ! i ! i\<bar> = 1) [0..<length M] then Inr (mat_mul (mat_mul V D) U)
        else if list_ex (\<lambda>i. D ! i ! i = 0) [0..<length M] then Inl ZeroDivisionError
        else Inl ArithmeticError)"

subsection \<open>The general lift\<close>

text \<open>
  Lines 215 to 223 of \<^verbatim>\<open>lift_for_SL\<close>: the Smith form, the two corrections of sign with
  \<^verbatim>\<open>diag = diagonal_matrix([-1] + [1] * (m - 1))\<close>, the product \<^verbatim>\<open>D = U * A * V\<close> and the
  list \<open>a\<close> of its diagonal entries.
\<close>

definition sl_factors :: "mat \<Rightarrow> mat \<times> mat \<times> int list" where
  "sl_factors A =
     (let m = length A in
      case smith_form A of (D0, U0, V0) \<Rightarrow>
        let diag = diagonal_matrix (- 1 # replicate (m - 1) 1);
            U = (if det U0 = - 1 then mat_mul diag U0 else U0);
            V = (if det V0 = - 1 then mat_mul V0 diag else V0);
            D = mat_mul (mat_mul U A) V
        in (U, V, map (\<lambda>i. D ! i ! i) [0..<m]))"

text \<open>Lines 238 and 239: \<^verbatim>\<open>Cp = diagonal_matrix(a[1:]); Cp[0, 0] *= a[0]\<close>.\<close>

definition sl_reduced :: "int list \<Rightarrow> mat" where
  "sl_reduced a = (let Cp = diagonal_matrix (tl a) in set_entry Cp 0 0 (Cp ! 0 ! 0 * a ! 0))"

text \<open>
  Lines 224 to 231 and 242 to 245, for the lift \<open>C\<close> that the recursive call returned: the
  matrices \<open>W\<close>, \<open>X\<close> and \<open>Cpp\<close>, and the product \<^verbatim>\<open>~U * ~W * Cpp * ~X * ~V\<close>. The matrix
  \<^verbatim>\<open>Ap\<close> of lines 233 to 236 is never read.
\<close>

definition sl_assemble :: "nat \<Rightarrow> mat \<Rightarrow> mat \<Rightarrow> int list \<Rightarrow> mat \<Rightarrow> error + mat" where
  "sl_assemble m U V a C =
     (let b = prod_list (tl a);
          W = set_entry (set_entry (set_entry (identity_matrix m) 0 0 b) 1 0 (b - 1)) 0 1 1;
          X = set_entry (identity_matrix m) 0 1 (- (a ! 1));
          Cpp = set_entry (block_diagonal_matrix (identity_matrix 1) C) 1 0 (1 - a ! 0)
      in bind_err (mat_inverse U) (\<lambda>Ui.
         bind_err (mat_inverse W) (\<lambda>Wi.
         bind_err (mat_inverse X) (\<lambda>Xi.
         bind_err (mat_inverse V) (\<lambda>Vi.
           Inr (mat_mul (mat_mul (mat_mul (mat_mul Ui Wi) Cpp) Xi) Vi))))))"

text \<open>
  \<^verbatim>\<open>lift_for_SL(A, N)\<close>, lines 211 to 245. The test \<^verbatim>\<open>m == 1\<close> comes first and looks at the
  number of rows only. A matrix with another number of rows that is not square raises at the
  product of line 245 at the latest, where matrices of the size of the rows meet the inverse
  of \<open>V\<close>, of the size of the columns; which exception comes first there is not modelled.
  The matrix without rows raises \<^verbatim>\<open>IndexError\<close> at line 226. The modulus \<open>N\<close> is handed to
  the recursive call and used nowhere else.
\<close>

function lift_for_SL :: "mat \<Rightarrow> int \<Rightarrow> error + mat" where
  "lift_for_SL A N =
     (let m = length A in
      if m = 1 then Inr (identity_matrix 1)
      else if \<not> square_mat m A then Inl TypeError
      else if m = 0 then Inl IndexError
      else case sl_factors A of (U, V, a) \<Rightarrow>
        bind_err (lift_for_SL (sl_reduced a) N) (sl_assemble m U V a))"
  by pat_completeness auto
termination
  by (relation "measure (\<lambda>(A, N). length A)")
    (auto simp: sl_factors_def sl_reduced_def Let_def set_entry_def diagonal_matrix_def
       mk_mat_def split: prod.splits)

declare lift_for_SL.simps [simp del]

text \<open>
  The same function with a bound on the number of nested calls: \<open>None\<close> when \<open>k\<close> calls, one
  inside the other, are not enough.
\<close>

fun lift_for_SL_fuel :: "nat \<Rightarrow> mat \<Rightarrow> int \<Rightarrow> (error + mat) option" where
  "lift_for_SL_fuel 0 A N = None"
| "lift_for_SL_fuel (Suc k) A N =
     (let m = length A in
      if m = 1 then Some (Inr (identity_matrix 1))
      else if \<not> square_mat m A then Some (Inl TypeError)
      else if m = 0 then Some (Inl IndexError)
      else case sl_factors A of (U, V, a) \<Rightarrow>
        (case lift_for_SL_fuel k (sl_reduced a) N of
           None \<Rightarrow> None
         | Some r \<Rightarrow> Some (bind_err r (sl_assemble m U V a))))"

subsection \<open>Notions for the proofs about matrices\<close>

text \<open>Sum and multiple of rows.\<close>

definition vadd :: "int list \<Rightarrow> int list \<Rightarrow> int list" where
  "vadd r s = map2 (+) r s"

definition vscale :: "int \<Rightarrow> int list \<Rightarrow> int list" where
  "vscale c r = map ((*) c) r"

text \<open>The first \<open>k\<close> rows of \<open>M\<close> multiplied by \<open>c 0, \<dots>, c (k - 1)\<close>.\<close>

definition scale_rows :: "nat \<Rightarrow> nat \<Rightarrow> (nat \<Rightarrow> int) \<Rightarrow> mat \<Rightarrow> mat" where
  "scale_rows n k c M = mk_mat n (\<lambda>a b. (if a < k then c a else 1) * M ! a ! b)"

text \<open>The products of elementary matrices of determinant 1 or -1.\<close>

inductive eprod :: "nat \<Rightarrow> mat \<Rightarrow> bool" for n :: nat where
  eprod_id: "eprod n (identity_matrix n)"
| eprod_step: "eprod n P \<Longrightarrow> i \<noteq> j \<Longrightarrow> i < n \<Longrightarrow> j < n \<Longrightarrow> \<bar>p * s - q * r\<bar> = 1 \<Longrightarrow>
     eprod n (mat_mul (elem_mat n i j p q r s) P)"

text \<open>
  The invariant of the loop of the Smith form: rows and columns before the pivot \<open>t\<close> are
  zero off the diagonal, and the matrix is the input between the two recorded products.
\<close>

definition cleared :: "nat \<Rightarrow> nat \<Rightarrow> mat \<Rightarrow> bool" where
  "cleared n t A = (\<forall>a<n. \<forall>b<n. a \<noteq> b \<and> (a < t \<or> b < t) \<longrightarrow> A ! a ! b = 0)"

definition diag_inv :: "nat \<Rightarrow> mat \<Rightarrow> nat \<Rightarrow> mat \<times> mat \<times> mat \<Rightarrow> bool" where
  "diag_inv n A0 t S =
     (case S of (U, A, V) \<Rightarrow>
        eprod n U \<and> eprod n V \<and> square_mat n A \<and> A = mat_mul (mat_mul U A0) V \<and> cleared n t A)"

text \<open>Congruence of two \<open>n\<close>-by-\<open>n\<close> matrices modulo \<open>N\<close>, entry by entry.\<close>

definition mat_cong :: "int \<Rightarrow> nat \<Rightarrow> mat \<Rightarrow> mat \<Rightarrow> bool" where
  "mat_cong N n A B = (\<forall>i<n. \<forall>j<n. N dvd (A ! i ! j - B ! i ! j))"

text \<open>The diagonal of the correction of sign of lines 216 to 220, for a determinant \<open>d\<close>.\<close>

definition sign_list :: "nat \<Rightarrow> int \<Rightarrow> int list" where
  "sign_list n d = (if d = - 1 then - 1 # replicate (n - 1) 1 else replicate n 1)"

section \<open>Properties of the primitives\<close>

lemma xgcd_loop_correct:
  "xgcd_loop a b p q r s = (g, x, y) \<Longrightarrow> p * A + q * B = a \<Longrightarrow> r * A + s * B = b \<Longrightarrow>
   0 \<le> a \<Longrightarrow> 0 \<le> b \<Longrightarrow> g = gcd a b \<and> x * A + y * B = g"
proof (induction a b p q r s rule: xgcd_loop.induct)
  case (1 a b p q r s)
  show ?case
  proof (cases "b = 0")
    case True
    with "1.prems" show ?thesis by simp
  next
    case False
    from "1.prems"(1) False
    have loop: "xgcd_loop b (a mod b) r s (p - (a div b) * r) (q - (a div b) * s) = (g, x, y)"
      by (simp del: xgcd_loop.simps add: xgcd_loop.simps [of a b])
    have inv: "(p - (a div b) * r) * A + (q - (a div b) * s) * B = a mod b"
    proof -
      have "(p - (a div b) * r) * A + (q - (a div b) * s) * B
            = (p * A + q * B) - (a div b) * (r * A + s * B)"
        by (simp add: algebra_simps)
      also have "\<dots> = a - (a div b) * b" using "1.prems" by simp
      also have "\<dots> = a mod b" by (simp add: minus_div_mult_eq_mod)
      finally show ?thesis .
    qed
    have nonneg: "0 \<le> a mod b" using "1.prems"(5) False by simp
    from "1.IH" [OF False loop "1.prems"(3) inv "1.prems"(5) nonneg]
    have "g = gcd b (a mod b)" and "x * A + y * B = g" by simp_all
    moreover have "gcd b (a mod b) = gcd a b"
      by (metis gcd.commute gcd_red_int)
    ultimately show ?thesis by simp
  qed
qed

lemma xgcd_correct:
  assumes "xgcd a b = (g, s, t)"
  shows "g = gcd a b" and "s * a + t * b = g"
proof -
  obtain g0 s0 t0 where l: "xgcd_loop \<bar>a\<bar> \<bar>b\<bar> 1 0 0 1 = (g0, s0, t0)"
    by (metis prod_cases3)
  from assms l have eqs: "g = g0" "s = s0 * sgn a" "t = t0 * sgn b"
    by (simp_all add: xgcd_def)
  have "g0 = gcd \<bar>a\<bar> \<bar>b\<bar> \<and> s0 * \<bar>a\<bar> + t0 * \<bar>b\<bar> = g0"
    by (rule xgcd_loop_correct [OF l]) simp_all
  then have g0: "g0 = gcd a b" and b0: "s0 * \<bar>a\<bar> + t0 * \<bar>b\<bar> = g0" by simp_all
  show "g = gcd a b" using eqs g0 by simp
  have "s * a + t * b = s0 * (sgn a * a) + t0 * (sgn b * b)"
    using eqs by (simp add: algebra_simps)
  also have "\<dots> = s0 * \<bar>a\<bar> + t0 * \<bar>b\<bar>"
    by (simp add: abs_sgn mult.commute)
  finally show "s * a + t * b = g" using b0 eqs by simp
qed

lemma crt_coprime:
  assumes m: "0 < m" and n: "0 < n" and cop: "coprime m n"
  shows "\<exists>x. crt a b m n = Inr x \<and> 0 \<le> x \<and> x < m * n \<and> x mod m = a mod m \<and> x mod n = b mod n"
proof -
  obtain g alpha beta where x: "xgcd m n = (g, alpha, beta)"
    by (metis prod_cases3)
  from xgcd_correct [OF x] cop have g: "g = 1" and bez: "alpha * m + beta * n = 1"
    by simp_all
  have l: "lcm m n = m * n"
    using cop m n by (simp add: lcm_coprime)
  have mn: "0 < m * n" using m n by simp
  define x0 where "x0 = a + (b - a) * alpha * m"
  have res: "crt a b m n = Inr (x0 mod (m * n))"
    using x g l mn m n by (simp add: crt_def x0_def)
  have "x0 mod (m * n) mod m = x0 mod m"
    by (simp add: mod_mod_cancel)
  also have "\<dots> = a mod m" by (simp add: x0_def)
  finally have c1: "x0 mod (m * n) mod m = a mod m" .
  have am: "alpha * m = 1 - beta * n" using bez by simp
  have "x0 = a + (b - a) * (alpha * m)" by (simp add: x0_def mult.assoc)
  also have "\<dots> = b + (a - b) * beta * n"
    unfolding am by (simp add: algebra_simps)
  finally have "x0 = b + (a - b) * beta * n" .
  then have "x0 mod n = b mod n" by simp
  moreover have "x0 mod (m * n) mod n = x0 mod n"
    by (simp add: mod_mod_cancel)
  ultimately have c2: "x0 mod (m * n) mod n = b mod n" by simp
  show ?thesis
    using res c1 c2 mn by simp
qed

lemma inverse_mod_coprime:
  assumes p: "1 < p" and cop: "coprime a p"
  shows "\<exists>i. inverse_mod a p = Inr i \<and> (a * i) mod p = 1"
proof -
  obtain g s t where x: "xgcd a p = (g, s, t)"
    by (metis prod_cases3)
  from xgcd_correct [OF x] cop have g: "g = 1" and bez: "s * a + t * p = 1"
    by simp_all
  have res: "inverse_mod a p = Inr (s mod p)"
    using x g p by (simp add: inverse_mod_def)
  have "(a * (s mod p)) mod p = (a * s) mod p"
    by (simp add: mod_mult_right_eq)
  also have "a * s = 1 - t * p" using bez by (simp add: algebra_simps)
  also have "(1 - t * p) mod p = 1 mod p"
    by (metis diff_conv_add_uminus mod_mult_self1 mult_minus_left)
  also have "\<dots> = 1" using p by simp
  finally show ?thesis using res by simp
qed

lemma prime_to_part_total: "m \<noteq> 0 \<Longrightarrow> \<exists>m1. prime_to_part m d = Some m1"
proof (induction m d rule: prime_to_part.induct)
  case (1 m d)
  show ?case
  proof (cases "gcd m d = 1")
    case True
    then show ?thesis by simp
  next
    case False
    have "m div gcd m d * gcd m d = m" by simp
    with "1.prems" have nz: "m div gcd m d \<noteq> 0" by (metis mult_zero_left)
    from "1.IH" [OF False "1.prems" nz] obtain m1
      where "prime_to_part (m div gcd m d) d = Some m1" by blast
    then show ?thesis
      using False "1.prems" by (simp del: prime_to_part.simps add: prime_to_part.simps [of m d])
  qed
qed

lemma prime_to_part_props:
  "prime_to_part m d = Some m1 \<Longrightarrow> m1 dvd m \<and> coprime m1 d \<and> (\<exists>j. m dvd m1 * d ^ j)"
proof (induction m d arbitrary: m1 rule: prime_to_part.induct)
  case (1 m d)
  show ?case
  proof (cases "gcd m d = 1")
    case True
    with "1.prems" have "m1 = m" by simp
    moreover have "m dvd m * d ^ 0" by simp
    ultimately show ?thesis using True by (auto simp: coprime_iff_gcd_eq_1)
  next
    case False
    show ?thesis
    proof (cases "m = 0")
      case True
      with False "1.prems" show ?thesis by simp
    next
      case m0: False
      from "1.prems" False m0 have rec: "prime_to_part (m div gcd m d) d = Some m1"
        by (simp del: prime_to_part.simps add: prime_to_part.simps [of m d])
      from "1.IH" [OF False m0 rec] obtain j
        where d1: "m1 dvd m div gcd m d" and cop: "coprime m1 d"
          and d2: "m div gcd m d dvd m1 * d ^ j" by blast
      have split: "m = m div gcd m d * gcd m d" by simp
      have "m div gcd m d dvd m" by (metis split dvd_triv_left)
      with d1 have a: "m1 dvd m" by (rule dvd_trans)
      have "m div gcd m d * gcd m d dvd (m1 * d ^ j) * d"
        using d2 by (rule mult_dvd_mono) simp
      then have "m dvd m1 * d ^ Suc j" by (simp add: mult.assoc mult.commute [of d])
      with a cop show ?thesis by blast
    qed
  qed
qed

lemma lift_to_sl2z_contract:
  assumes N: "0 < N" and g1: "gcd (gcd c d) N = 1" and nz: "\<not> (c = 0 \<and> d = 0)"
  shows "\<exists>a3 b3 c3 d3. lift_to_sl2z c d N = Inr [a3, b3, c3, d3] \<and> a3 * d3 - b3 * c3 = 1
           \<and> c3 mod N = c mod N \<and> d3 mod N = d mod N"
proof -
  obtain g z1 z2 where x: "xgcd c d = (g, z1, z2)" by (metis prod_cases3)
  from xgcd_correct [OF x] have g: "g = gcd c d" and bez: "z1 * c + z2 * d = g" by simp_all
  show ?thesis
  proof (cases "g = 1")
    case True
    then have "lift_to_sl2z c d N = Inr [z2, - z1, c, d]"
      using x nz by (simp add: lift_to_sl2z_def)
    moreover have "z2 * d - (- z1) * c = 1" using bez True by (simp add: algebra_simps)
    ultimately show ?thesis by blast
  next
    case False
    define c' where "c' = (if c = 0 then c + N else c)"
    define d' where "d' = (if d = 0 then d + N else d)"
    have c'0: "c' \<noteq> 0" using N by (simp add: c'_def)
    have c'mod: "c' mod N = c mod N" by (simp add: c'_def)
    have d'mod: "d' mod N = d mod N" by (simp add: d'_def)
    have common: "is_unit h" if "h dvd c'" "h dvd d'" "h dvd N" for h
    proof -
      have "h dvd c" using that by (auto simp: c'_def split: if_splits)
      moreover have "h dvd d" using that by (auto simp: d'_def split: if_splits)
      ultimately have "h dvd gcd (gcd c d) N" using that(3) by simp
      then show ?thesis using g1 by simp
    qed
    obtain m1 where p1: "prime_to_part c' d' = Some m1"
      using prime_to_part_total [OF c'0] by blast
    from prime_to_part_props [OF p1] obtain j
      where m1c: "m1 dvd c'" and cop1: "coprime m1 d'" and cdv: "c' dvd m1 * d' ^ j" by blast
    have m10: "m1 \<noteq> 0" using m1c c'0 by auto
    obtain m2 where p2: "prime_to_part m1 N = Some m2"
      using prime_to_part_total [OF m10] by blast
    from prime_to_part_props [OF p2] obtain i
      where m2m: "m2 dvd m1" and cop2: "coprime m2 N" and mdv: "m1 dvd m2 * N ^ i" by blast
    define d'' where "d'' = d' + N * m2"
    define e where "e = gcd c' d''"
    have e1: "coprime e m2"
    proof (rule coprimeI)
      fix h assume h: "h dvd e" "h dvd m2"
      then have "h dvd d''" by (simp add: e_def)
      moreover have "h dvd N * m2" using h(2) by simp
      ultimately have "h dvd d'' - N * m2" by (rule dvd_diff)
      then have "h dvd d'" by (simp add: d''_def)
      moreover have "h dvd m1" using h(2) m2m by (rule dvd_trans)
      ultimately show "is_unit h" using cop1 by (meson coprime_common_divisor)
    qed
    have e2: "coprime e d'"
    proof (rule coprimeI)
      fix h assume h: "h dvd e" "h dvd d'"
      then have "h dvd d''" by (simp add: e_def)
      then have "h dvd d'' - d'" using h(2) by (rule dvd_diff)
      then have hn: "h dvd N * m2" by (simp add: d''_def)
      have "coprime h m2" using e1 h(1) by (meson coprime_divisors dvd_refl)
      with hn have "h dvd N" by (simp add: coprime_dvd_mult_left_iff)
      moreover have "h dvd c'" using h(1) by (simp add: e_def)
      ultimately show "is_unit h" using h(2) common by blast
    qed
    have e3: "coprime e N"
    proof (rule coprimeI)
      fix h assume h: "h dvd e" "h dvd N"
      then have "h dvd d''" by (simp add: e_def)
      moreover have "h dvd N * m2" using h(2) by simp
      ultimately have "h dvd d'' - N * m2" by (rule dvd_diff)
      then have "h dvd d'" by (simp add: d''_def)
      then show "is_unit h" using e2 h(1) by (meson coprime_common_divisor)
    qed
    have "m1 * d' ^ j dvd (m2 * N ^ i) * d' ^ j"
      using mdv by (rule mult_dvd_mono) simp
    with cdv have "c' dvd m2 * N ^ i * d' ^ j" by (rule dvd_trans)
    moreover have "e dvd c'" by (simp add: e_def)
    ultimately have edv: "e dvd m2 * N ^ i * d' ^ j" by (rule dvd_trans [rotated])
    have ecop: "coprime e (m2 * N ^ i * d' ^ j)"
      using e1 e2 e3 by simp
    have "is_unit e" using coprime_absorb_left [OF edv] ecop by blast
    moreover have "0 \<le> e" by (simp add: e_def)
    ultimately have e_one: "e = 1" by simp
    obtain g' y1 y2 where x': "xgcd c' d'' = (g', y1, y2)" by (metis prod_cases3)
    from xgcd_correct [OF x'] e_one have g': "g' = 1" and bez': "y1 * c' + y2 * d'' = 1"
      by (simp_all add: e_def)
    have "lift_to_sl2z c d N = Inr [y2, - y1, c', d'']"
      using x False nz p1 p2 x' g'
      by (simp add: lift_to_sl2z_def c'_def [symmetric] d'_def [symmetric] d''_def [symmetric])
    moreover have "y2 * d'' - (- y1) * c' = 1" using bez' by (simp add: algebra_simps)
    moreover have "d'' mod N = d mod N" using d'mod by (simp add: d''_def)
    ultimately show ?thesis using c'mod by blast
  qed
qed

section \<open>The base lift\<close>

lemma lift_to_gamma1_contract:
  assumes m: "2 \<le> m" and n: "0 < n" and cop: "coprime m n"
    and det: "(a * d - b * c) mod m = 1"
  shows "\<exists>a' b' c' d'. lift_to_gamma1 [a, b, c, d] m n = Inr [a', b', c', d']
           \<and> a' * d' - b' * c' = 1
           \<and> m dvd a' - a \<and> m dvd b' - b \<and> m dvd c' - c \<and> m dvd d' - d
           \<and> n dvd a' - 1 \<and> n dvd c' \<and> n dvd d' - 1"
proof -
  have m0: "0 < m" using m by simp
  obtain c2 where c2: "crt c 0 m n = Inr c2" "c2 mod m = c mod m" "c2 mod n = 0 mod n"
    using crt_coprime [OF m0 n cop, of c 0] by blast
  obtain d2 where d2: "crt d 1 m n = Inr d2" "d2 mod m = d mod m" "d2 mod n = 1 mod n"
    using crt_coprime [OF m0 n cop, of d 1] by blast
  have mn: "0 < m * n" using m0 n by simp
  have mn2: "2 \<le> m * n" using m n by (smt (verit) mult_le_cancel_left1 mult.commute mult_pos_pos)
  have detdvd: "m dvd a * d - b * c - 1"
    using det m by (metis mod_eq_dvd_iff mod_pos_pos_trivial zero_le_one less_le_trans one_less_numeral_iff semiring_norm(76) zless_add1_eq one_add_one)
  have unit: "is_unit h" if h: "h dvd c2" "h dvd d2" "h dvd m * n" for h
  proof -
    have hn: "coprime h n"
    proof (rule coprimeI)
      fix k assume k: "k dvd h" "k dvd n"
      then have "k dvd d2" using h(2) by (meson dvd_trans)
      then have "k dvd d2 mod n" using k(2) by (rule dvd_mod)
      then have "k dvd 1 mod n" using d2(3) by simp
      then show "is_unit k" using k(2) by (simp add: dvd_mod_iff)
    qed
    then have hm: "h dvd m" using h(3) by (simp add: coprime_dvd_mult_left_iff)
    have "h dvd c2 mod m" using h(1) hm by (rule dvd_mod)
    then have "h dvd c mod m" using c2(2) by simp
    then have hc: "h dvd c" using hm by (simp add: dvd_mod_iff)
    have "h dvd d2 mod m" using h(2) hm by (rule dvd_mod)
    then have "h dvd d mod m" using d2(2) by simp
    then have hd: "h dvd d" using hm by (simp add: dvd_mod_iff)
    have "h dvd a * d - b * c" using hc hd by simp
    moreover have "h dvd a * d - b * c - 1" using detdvd hm by (rule dvd_trans [rotated])
    ultimately have "h dvd (a * d - b * c) - (a * d - b * c - 1)" by (rule dvd_diff)
    then show ?thesis by simp
  qed
  have g1: "gcd (gcd c2 d2) (m * n) = 1"
  proof -
    have "is_unit (gcd (gcd c2 d2) (m * n))"
      by (rule unit) (simp_all add: gcd_dvdI1)
    then show ?thesis by simp
  qed
  have nz: "\<not> (c2 = 0 \<and> d2 = 0)"
  proof
    assume "c2 = 0 \<and> d2 = 0"
    then have "gcd (gcd c2 d2) (m * n) = m * n" using mn by simp
    with g1 mn2 show False by simp
  qed
  from lift_to_sl2z_contract [OF mn g1 nz] obtain a3 b3 c3 d3
    where l: "lift_to_sl2z c2 d2 (m * n) = Inr [a3, b3, c3, d3]"
      and det3: "a3 * d3 - b3 * c3 = 1"
      and c3: "c3 mod (m * n) = c2 mod (m * n)" and d3: "d3 mod (m * n) = d2 mod (m * n)"
    by blast
  define R where "R = a3 * b - b3 * a"
  define r where "r = R mod m"
  have res: "lift_to_gamma1 [a, b, c, d] m n = Inr [a3 + r * c3, b3 + r * d3, c3, d3]"
    using m det c2(1) d2(1) l by (simp add: lift_to_gamma1_def bind_err_def r_def R_def Let_def)
  have "c3 mod (m * n) mod m = c2 mod (m * n) mod m" using c3 by simp
  then have "c3 mod m = c mod m" using c2(2) by (simp add: mod_mod_cancel)
  then have cm: "m dvd c3 - c" by (simp add: mod_eq_dvd_iff)
  have "d3 mod (m * n) mod m = d2 mod (m * n) mod m" using d3 by simp
  then have "d3 mod m = d mod m" using d2(2) by (simp add: mod_mod_cancel)
  then have dm: "m dvd d3 - d" by (simp add: mod_eq_dvd_iff)
  have "c3 mod (m * n) mod n = c2 mod (m * n) mod n" using c3 by simp
  then have "c3 mod n = 0" using c2(3) by (simp add: mod_mod_cancel)
  then have cn: "n dvd c3" by (simp add: dvd_eq_mod_eq_0)
  have "d3 mod (m * n) mod n = d2 mod (m * n) mod n" using d3 by simp
  then have "d3 mod n = 1 mod n" using d2(3) by (simp add: mod_mod_cancel)
  then have dn: "n dvd d3 - 1" by (simp add: mod_eq_dvd_iff)
  have rm: "m dvd r - R" by (simp add: r_def mod_eq_dvd_iff [symmetric])
  have det': "(a3 + r * c3) * d3 - (b3 + r * d3) * c3 = 1"
    using det3 by (simp add: algebra_simps)
  have ida: "a3 + r * c3 - a = (r - R) * c3 + R * (c3 - c) - a3 * (a * d - b * c - 1)
      + a * (a3 * (d - d3) - b3 * (c - c3)) + a * (a3 * d3 - b3 * c3 - 1)"
    by (simp add: R_def algebra_simps)
  have idb: "b3 + r * d3 - b = (r - R) * d3 + R * (d3 - d) - b3 * (a * d - b * c - 1)
      + b * (a3 * (d - d3) - b3 * (c - c3)) + b * (a3 * d3 - b3 * c3 - 1)"
    by (simp add: R_def algebra_simps)
  have cm': "m dvd c - c3" using cm by (simp add: dvd_diff_commute)
  have dm': "m dvd d - d3" using dm by (simp add: dvd_diff_commute)
  have am: "m dvd a3 + r * c3 - a"
    unfolding ida det3 using rm cm dm cm' dm' detdvd by (simp add: dvd_diff)
  have bm: "m dvd b3 + r * d3 - b"
    unfolding idb det3 using rm cm dm cm' dm' detdvd by (simp add: dvd_diff)
  have "a3 + r * c3 - 1 = (b3 + r * d3) * c3 - (a3 + r * c3) * (d3 - 1)"
    using det' by (simp add: algebra_simps)
  then have an: "n dvd a3 + r * c3 - 1"
    using cn dn by (simp add: dvd_diff)
  show ?thesis
    using res det' am bm cm dm an cn dn by blast
qed

section \<open>Which errors the base lift can raise\<close>

lemma bind_err_Inl:
  "bind_err x f = Inl e \<Longrightarrow> x = Inl e \<or> (\<exists>v. x = Inr v \<and> f v = Inl e)"
  by (cases x) (simp_all add: bind_err_def)

lemma crt_errors:
  "crt a b m n = Inl e \<Longrightarrow> e = ZeroDivisionError \<or> e = ValueError ''No solution to crt problem''"
  unfolding crt_def by (cases "xgcd m n") (simp split: if_splits)

lemma lift_to_sl2z_errors:
  assumes "lift_to_sl2z c d N = Inl e"
  shows "e = AttributeError \<or> e = NonTermination \<or> e = ValueError ''input must have gcd 1''"
proof -
  obtain g z1 z2 where x: "xgcd c d = (g, z1, z2)" by (metis prod_cases3)
  define c' where "c' = (if c = 0 then c + N else c)"
  define d' where "d' = (if d = 0 then d + N else d)"
  show ?thesis
  proof (cases "prime_to_part c' d'")
    case None
    with assms x show ?thesis
      by (simp add: lift_to_sl2z_def c'_def [symmetric] d'_def [symmetric] split: if_splits)
  next
    case (Some m1)
    note s1 = this
    show ?thesis
    proof (cases "prime_to_part m1 N")
      case None
      with assms x s1 show ?thesis
        by (simp add: lift_to_sl2z_def c'_def [symmetric] d'_def [symmetric] split: if_splits)
    next
      case (Some m2)
      obtain g' y1 y2 where x': "xgcd c' (d' + N * m2) = (g', y1, y2)" by (metis prod_cases3)
      with assms x s1 Some show ?thesis
        by (simp add: lift_to_sl2z_def c'_def [symmetric] d'_def [symmetric] split: if_splits)
    qed
  qed
qed

lemma unpack4_errors:
  "(case l of [a3, b3, c3, d3] \<Rightarrow> Inr (f a3 b3 c3 d3) | _ \<Rightarrow> Inl (ValueError ''unpack'')) = Inl e
     \<Longrightarrow> e = ValueError ''unpack''"
  by (simp split: list.splits)

lemma lift_to_gamma1_no_det_error:
  assumes m0: "m \<noteq> 0" and det: "(a * d - b * c) mod m = 1"
  shows "lift_to_gamma1 [a, b, c, d] m n \<noteq> Inl (ValueError (det_message r k))"
proof
  assume e: "lift_to_gamma1 [a, b, c, d] m n = Inl (ValueError (det_message r k))"
  have D: "det_message r k \<noteq> ''No solution to crt problem''"
    "det_message r k \<noteq> ''input must have gcd 1''" "det_message r k \<noteq> ''unpack''"
    by (simp_all add: det_message_def)
  show False
  proof (cases "m = 1")
    case True
    with e show False by (simp add: lift_to_gamma1_def)
  next
    case False
    define E where "E = ValueError (det_message r k)"
    from e False m0 det have chain:
      "bind_err (crt c 0 m n) (\<lambda>c2.
       bind_err (crt d 1 m n) (\<lambda>d2.
       bind_err (lift_to_sl2z c2 d2 (m * n)) (\<lambda>l.
         case l of [a3, b3, c3, d3] \<Rightarrow>
            Inr [a3 + (a3 * b - b3 * a) mod m * c3, b3 + (a3 * b - b3 * a) mod m * d3, c3, d3]
         | _ \<Rightarrow> Inl (ValueError ''unpack'')))) = Inl E"
      by (simp add: lift_to_gamma1_def Let_def E_def)
    have notE: "E \<noteq> ZeroDivisionError" "E \<noteq> ValueError ''No solution to crt problem''"
      "E \<noteq> AttributeError" "E \<noteq> NonTermination" "E \<noteq> ValueError ''input must have gcd 1''"
      "E \<noteq> ValueError ''unpack''"
      using D by (simp_all add: E_def)
    from bind_err_Inl [OF chain] crt_errors [of c 0 m n E] notE obtain c2 where
      c2: "bind_err (crt d 1 m n) (\<lambda>d2.
       bind_err (lift_to_sl2z c2 d2 (m * n)) (\<lambda>l.
         case l of [a3, b3, c3, d3] \<Rightarrow>
            Inr [a3 + (a3 * b - b3 * a) mod m * c3, b3 + (a3 * b - b3 * a) mod m * d3, c3, d3]
         | _ \<Rightarrow> Inl (ValueError ''unpack''))) = Inl E"
      by blast
    from bind_err_Inl [OF c2] crt_errors [of d 1 m n E] notE obtain d2 where
      d2: "bind_err (lift_to_sl2z c2 d2 (m * n)) (\<lambda>l.
         case l of [a3, b3, c3, d3] \<Rightarrow>
            Inr [a3 + (a3 * b - b3 * a) mod m * c3, b3 + (a3 * b - b3 * a) mod m * d3, c3, d3]
         | _ \<Rightarrow> Inl (ValueError ''unpack'')) = Inl E"
      by blast
    from bind_err_Inl [OF d2] lift_to_sl2z_errors [of c2 d2 "m * n" E] notE obtain l where
      "(case l of [a3, b3, c3, d3] \<Rightarrow>
            Inr [a3 + (a3 * b - b3 * a) mod m * c3, b3 + (a3 * b - b3 * a) mod m * d3, c3, d3]
         | _ \<Rightarrow> Inl (ValueError ''unpack'')) = Inl E"
      by blast
    from unpack4_errors [OF this] notE show False by simp
  qed
qed

section \<open>The ramified lift and the uniformiser lift\<close>

lemma lift_ramified_core:
  assumes p: "1 < p" and n: "0 < n" and cop: "coprime n p"
    and base: "lift_to_gamma1 [a, b, c, d] (p ^ u) n = Inr [a1, b1, c1, d1]"
    and det1: "a1 * d1 - b1 * c1 = 1"
    and cm: "p ^ u dvd c1 - c" and pc1: "p dvd c1"
  shows "\<exists>i r. coprime a1 p \<and> inverse_mod a1 p = Inr i
           \<and> crt ((c1 - c) div p ^ u * i) 0 p n = Inr r
           \<and> lift_ramified [a, b, c, d] p u n
               = Inr [a1, b1, c1 - p ^ u * r * a1, d1 - p ^ u * r * b1]
           \<and> p dvd (c1 - c) div p ^ u - r * a1 \<and> n dvd r"
proof -
  have copa: "coprime a1 p"
  proof (rule coprimeI)
    fix h assume h: "h dvd a1" "h dvd p"
    then have "h dvd c1" using pc1 by (meson dvd_trans)
    then have "h dvd a1 * d1 - b1 * c1" using h(1) by simp
    then show "is_unit h" using det1 by simp
  qed
  from inverse_mod_coprime [OF p copa] obtain i
    where i: "inverse_mod a1 p = Inr i" "(a1 * i) mod p = 1" by blast
  define k where "k = (c1 - c) div p ^ u"
  have p0: "0 < p" using p by simp
  have copp: "coprime p n" using cop by (simp add: coprime_commute)
  from crt_coprime [OF p0 n copp, of "k * i" 0] obtain r
    where r: "crt (k * i) 0 p n = Inr r" "r mod p = (k * i) mod p" "r mod n = 0 mod n" by blast
  have pu0: "p ^ u \<noteq> 0" using p0 by simp
  have res: "lift_ramified [a, b, c, d] p u n
      = Inr [a1, b1, c1 - p ^ u * r * a1, d1 - p ^ u * r * b1]"
    using base i(1) r(1) cm pu0 by (simp add: lift_ramified_def bind_err_def k_def)
  have nr: "n dvd r" using r(3) by (simp add: dvd_eq_mod_eq_0)
  have d1: "p dvd r - k * i" using r(2) by (simp add: mod_eq_dvd_iff)
  have "(a1 * i) mod p = 1 mod p" using i(2) p by simp
  then have d2: "p dvd a1 * i - 1" by (simp add: mod_eq_dvd_iff)
  have "k - r * a1 = - ((r - k * i) * a1) - k * (a1 * i - 1)"
    by (simp add: algebra_simps)
  moreover have "p dvd - ((r - k * i) * a1) - k * (a1 * i - 1)"
    using d1 d2 by (simp add: dvd_diff)
  ultimately have "p dvd k - r * a1" by simp
  then show ?thesis
    using copa i(1) r(1) res nr unfolding k_def by blast
qed

lemma is_prime_gt_1: "is_prime p \<Longrightarrow> 1 < p"
  by (simp add: is_prime_def)

lemma power_ge_2:
  fixes p :: int
  assumes "1 < p" and "1 \<le> u"
  shows "2 \<le> p ^ u"
proof -
  have "p ^ 1 \<le> p ^ u" using assms by (intro power_increasing) simp_all
  then show ?thesis using assms(1) by simp
qed

lemma lift_ramified_contract:
  assumes p: "1 < p" and u: "1 \<le> u" and n: "0 < n" and cop: "coprime n p"
    and pc: "p dvd c" and det: "(a * d - b * c) mod p ^ u = 1"
  shows "\<exists>a' b' c' d'. lift_ramified [a, b, c, d] p u n = Inr [a', b', c', d']
           \<and> a' * d' - b' * c' = 1
           \<and> p ^ u dvd a' - a \<and> p ^ u dvd b' - b \<and> p ^ u dvd c' - c \<and> p ^ u dvd d' - d
           \<and> p ^ (u + 1) dvd c' - c
           \<and> n dvd a' - 1 \<and> n dvd c' \<and> n dvd d' - 1"
proof -
  have m2: "2 \<le> p ^ u" using p u by (rule power_ge_2)
  have copm: "coprime (p ^ u) n" using cop by (simp add: coprime_commute)
  from lift_to_gamma1_contract [OF m2 n copm det] obtain a1 b1 c1 d1
    where base: "lift_to_gamma1 [a, b, c, d] (p ^ u) n = Inr [a1, b1, c1, d1]"
      and det1: "a1 * d1 - b1 * c1 = 1"
      and am: "p ^ u dvd a1 - a" and bm: "p ^ u dvd b1 - b"
      and cm: "p ^ u dvd c1 - c" and dm: "p ^ u dvd d1 - d"
      and an: "n dvd a1 - 1" and cn: "n dvd c1" and dn: "n dvd d1 - 1"
    by blast
  have ppu: "p dvd p ^ u" using u by (metis dvd_power le_numeral_extra(2) less_one not_le_imp_less order_less_le_trans)
  then have "p dvd c1 - c" using cm by (rule dvd_trans)
  then have "p dvd (c1 - c) + c" using pc by (rule dvd_add)
  then have pc1: "p dvd c1" by simp
  from lift_ramified_core [OF p n cop base det1 cm pc1] obtain i r
    where res: "lift_ramified [a, b, c, d] p u n
               = Inr [a1, b1, c1 - p ^ u * r * a1, d1 - p ^ u * r * b1]"
      and pk: "p dvd (c1 - c) div p ^ u - r * a1" and nr: "n dvd r"
    by blast
  define k where "k = (c1 - c) div p ^ u"
  have ck: "c1 - c = p ^ u * k" using cm by (simp add: k_def)
  have det': "a1 * (d1 - p ^ u * r * b1) - b1 * (c1 - p ^ u * r * a1) = 1"
    using det1 by (simp add: algebra_simps)
  have e1: "c1 - p ^ u * r * a1 - c = (c1 - c) - p ^ u * (r * a1)" by (simp add: algebra_simps)
  have cm': "p ^ u dvd c1 - p ^ u * r * a1 - c"
    unfolding e1 using cm by (rule dvd_diff) simp
  have e2: "d1 - p ^ u * r * b1 - d = (d1 - d) - p ^ u * (r * b1)" by (simp add: algebra_simps)
  have dm': "p ^ u dvd d1 - p ^ u * r * b1 - d"
    unfolding e2 using dm by (rule dvd_diff) simp
  have e3: "c1 - p ^ u * r * a1 - c = p ^ u * (k - r * a1)"
    unfolding e1 ck by (simp add: algebra_simps)
  have "p ^ u * p dvd p ^ u * (k - r * a1)"
    using pk unfolding k_def by (rule mult_dvd_mono [OF dvd_refl])
  then have cm1: "p ^ (u + 1) dvd c1 - p ^ u * r * a1 - c"
    unfolding e3 by simp
  have e4: "c1 - p ^ u * r * a1 = c1 - r * (p ^ u * a1)" by (simp add: algebra_simps)
  have cn': "n dvd c1 - p ^ u * r * a1"
    unfolding e4 using cn by (rule dvd_diff) (simp add: nr)
  have e5: "d1 - p ^ u * r * b1 - 1 = (d1 - 1) - r * (p ^ u * b1)" by (simp add: algebra_simps)
  have dn': "n dvd d1 - p ^ u * r * b1 - 1"
    unfolding e5 using dn by (rule dvd_diff) (simp add: nr)
  show ?thesis
    using res det' am bm cm' dm' cm1 an cn' dn' by blast
qed

lemma lift_ramified_safe:
  assumes p: "1 < p" and n: "0 < n" and cop: "coprime n p"
    and pc: "p dvd c" and det: "(a * d - b * c) mod p ^ u = 1 mod p ^ u"
  shows "\<exists>a1 b1 c1 d1 i r l. lift_to_gamma1 [a, b, c, d] (p ^ u) n = Inr [a1, b1, c1, d1]
           \<and> p ^ u dvd c1 - c \<and> coprime a1 p \<and> inverse_mod a1 p = Inr i
           \<and> crt ((c1 - c) div p ^ u * i) 0 p n = Inr r
           \<and> lift_ramified [a, b, c, d] p u n = Inr l"
proof (cases "u = 0")
  case True
  have base: "lift_to_gamma1 [a, b, c, d] (p ^ u) n = Inr [1, 0, 0, 1]"
    using True by (simp add: lift_to_gamma1_def)
  have det1: "(1::int) * 1 - 0 * 0 = 1" by simp
  have cm: "p ^ u dvd 0 - c" using True by simp
  have pc1: "p dvd 0" by simp
  from lift_ramified_core [OF p n cop base det1 cm pc1] base cm show ?thesis
    by blast
next
  case False
  then have u: "1 \<le> u" by simp
  have m2: "2 \<le> p ^ u" using p u by (rule power_ge_2)
  then have det': "(a * d - b * c) mod p ^ u = 1" using det by simp
  have copm: "coprime (p ^ u) n" using cop by (simp add: coprime_commute)
  from lift_to_gamma1_contract [OF m2 n copm det'] obtain a1 b1 c1 d1
    where base: "lift_to_gamma1 [a, b, c, d] (p ^ u) n = Inr [a1, b1, c1, d1]"
      and det1: "a1 * d1 - b1 * c1 = 1" and cm: "p ^ u dvd c1 - c"
    by blast
  have ppu: "p dvd p ^ u" using False by simp
  then have "p dvd c1 - c" using cm by (rule dvd_trans)
  then have "p dvd (c1 - c) + c" using pc by (rule dvd_add)
  then have pc1: "p dvd c1" by simp
  from lift_ramified_core [OF p n cop base det1 cm pc1] base cm show ?thesis
    by blast
qed

lemma lift_uniformiser_odd_props:
  assumes p: "1 < p" and u: "1 \<le> u" and n: "0 < n" and cop: "coprime n p"
  shows "\<exists>g0 g1 g2 g3. lift_gen_to_gamma1 (p ^ u) n = Inr [g0, g1, g2, g3]
           \<and> lift_uniformiser_odd p u n = Inr [p * g0, g1, p * g2, g3]
           \<and> (p * g0) * g3 - g1 * (p * g2) = p
           \<and> n dvd p * g0 - p \<and> n dvd p * g2 \<and> n dvd g3 - 1"
proof -
  have m2: "2 \<le> p ^ u" using p u by (rule power_ge_2)
  have copm: "coprime (p ^ u) n" using cop by (simp add: coprime_commute)
  have det: "(0 * 0 - (- 1) * 1) mod p ^ u = (1::int)" using m2 by simp
  from lift_to_gamma1_contract [OF m2 n copm det] obtain g0 g1 g2 g3
    where base: "lift_to_gamma1 [0, - 1, 1, 0] (p ^ u) n = Inr [g0, g1, g2, g3]"
      and det1: "g0 * g3 - g1 * g2 = 1"
      and an: "n dvd g0 - 1" and cn: "n dvd g2" and dn: "n dvd g3 - 1"
    by blast
  have gen: "lift_gen_to_gamma1 (p ^ u) n = Inr [g0, g1, g2, g3]"
    using base by (simp add: lift_gen_to_gamma1_def)
  then have res: "lift_uniformiser_odd p u n = Inr [p * g0, g1, p * g2, g3]"
    by (simp add: lift_uniformiser_odd_def bind_err_def)
  have "(p * g0) * g3 - g1 * (p * g2) = p * (g0 * g3 - g1 * g2)"
    by (simp add: algebra_simps)
  then have detp: "(p * g0) * g3 - g1 * (p * g2) = p" using det1 by simp
  have e: "p * g0 - p = p * (g0 - 1)" by (simp add: algebra_simps)
  have an': "n dvd p * g0 - p" unfolding e using an by simp
  have cn': "n dvd p * g2" using cn by simp
  show ?thesis using gen res detp an' cn' dn by blast
qed

section \<open>Matrices: shape and entries\<close>

text \<open>
  A square matrix is determined by its entries; removing a row and the first column of a
  square matrix leaves a square matrix, which is one step of the expansion of the
  determinant.
\<close>

lemma square_matD: "square_mat n A \<Longrightarrow> length A = n" "square_mat n A \<Longrightarrow> i < n \<Longrightarrow> length (A ! i) = n"
  by (simp_all add: square_mat_def)

lemma square_mk_mat [simp]: "square_mat n (mk_mat n f)"
  by (simp add: square_mat_def mk_mat_def)

lemma length_mk_mat [simp]: "length (mk_mat n f) = n"
  by (simp add: mk_mat_def)

lemma mk_mat_nth [simp]: "i < n \<Longrightarrow> j < n \<Longrightarrow> mk_mat n f ! i ! j = f i j"
  by (simp add: mk_mat_def)

lemma mk_mat_row: "i < n \<Longrightarrow> mk_mat n f ! i = map (f i) [0..<n]"
  by (simp add: mk_mat_def)

lemma mat_eqI:
  assumes "square_mat n A" and "square_mat n B"
    and "\<And>i j. i < n \<Longrightarrow> j < n \<Longrightarrow> A ! i ! j = B ! i ! j"
  shows "A = B"
proof (rule nth_equalityI)
  show "length A = length B" using assms by (simp add: square_mat_def)
next
  fix i assume "i < length A"
  then have i: "i < n" using assms(1) by (simp add: square_mat_def)
  show "A ! i = B ! i"
  proof (rule nth_equalityI)
    show "length (A ! i) = length (B ! i)" using assms(1,2) i by (simp add: square_matD)
  next
    fix j assume "j < length (A ! i)"
    then have "j < n" using assms(1) i by (simp add: square_matD)
    then show "A ! i ! j = B ! i ! j" using i assms(3) by simp
  qed
qed

lemma length_del_row: "i < length A \<Longrightarrow> length (del_row i A) = length A - 1"
  by (simp add: del_row_def)

lemma del_row_nth: "i < length A \<Longrightarrow> k < length A - 1 \<Longrightarrow>
    del_row i A ! k = (if k < i then A ! k else A ! Suc k)"
  by (auto simp: del_row_def nth_append min_def)

lemma square_minor:
  assumes "square_mat (Suc n) A" and "i < Suc n"
  shows "square_mat n (map tl (del_row i A))"
  using assms by (auto simp: square_mat_def del_row_def dest!: in_set_takeD in_set_dropD)

lemma det_Suc:
  assumes "square_mat (Suc n) A"
  shows "det A = (\<Sum>i<Suc n. (- 1) ^ i * (A ! i ! 0) * det (map tl (del_row i A)))"
proof -
  have "A \<noteq> []" and "length A = Suc n" using assms by (auto simp: square_mat_def)
  then show ?thesis by (subst det.simps) simp
qed

lemma det_Nil [simp]: "det [] = 1"
  by (subst det.simps) simp

section \<open>The determinant is linear in each row\<close>

text \<open>
  Replacing one row by a sum, or by a multiple, does to the determinant what it does to
  the row. Both by induction on the size, along the expansion.
\<close>

lemma del_row_update_same: "del_row k (A[k := v]) = del_row k A"
  by (simp add: del_row_def)

lemma del_row_update_other:
  assumes "i \<noteq> k"
  shows "del_row i (A[k := v]) = (del_row i A)[(if k < i then k else k - 1) := v]"
proof (cases "k < i")
  case True
  then show ?thesis
    by (auto simp: del_row_def take_update_swap list_update_append list_update_beyond)
next
  case False
  with assms have ki: "i < k" by simp
  then obtain d where d: "k = Suc i + d" by (metis less_iff_Suc_add add_Suc)
  show ?thesis
  proof (cases "i < length A")
    case True
    then show ?thesis using ki d
      by (simp add: del_row_def list_update_append drop_update_swap min_def)
  next
    case False
    then show ?thesis using ki by (simp add: del_row_def list_update_beyond)
  qed
qed

lemma length_vadd [simp]: "length (vadd r s) = min (length r) (length s)"
  by (simp add: vadd_def)

lemma length_vscale [simp]: "length (vscale c r) = length r"
  by (simp add: vscale_def)

lemma vadd_nth [simp]: "j < length r \<Longrightarrow> j < length s \<Longrightarrow> vadd r s ! j = r ! j + s ! j"
  by (simp add: vadd_def)

lemma vscale_nth [simp]: "j < length r \<Longrightarrow> vscale c r ! j = c * r ! j"
  by (simp add: vscale_def)

lemma tl_vadd: "tl (vadd r s) = vadd (tl r) (tl s)"
  by (cases r; cases s) (simp_all add: vadd_def)

lemma tl_vscale: "tl (vscale c r) = vscale c (tl r)"
  by (cases r) (simp_all add: vscale_def)

lemma square_update:
  "square_mat n A \<Longrightarrow> length v = n \<Longrightarrow> square_mat n (A[k := v])"
  by (auto simp: square_mat_def dest!: set_update_subset_insert [THEN subsetD])

lemma minor_update_other:
  assumes "i \<noteq> k"
  shows "map tl (del_row i (A[k := v])) = (map tl (del_row i A))[(if k < i then k else k - 1) := tl v]"
  by (simp only: del_row_update_other [OF assms] map_update)

lemma det_row_add:
  "square_mat n A \<Longrightarrow> k < n \<Longrightarrow> length r = n \<Longrightarrow> length s = n \<Longrightarrow>
     det (A[k := vadd r s]) = det (A[k := r]) + det (A[k := s])"
proof (induction n arbitrary: A k r s)
  case 0
  then show ?case by simp
next
  case (Suc n)
  let ?t = "\<lambda>B i. (- 1) ^ i * (B ! i ! 0) * det (map tl (del_row i B))"
  have sq: "square_mat (Suc n) (A[k := vadd r s])" "square_mat (Suc n) (A[k := r])"
    "square_mat (Suc n) (A[k := s])"
    using Suc.prems by (simp_all add: square_update)
  have lenA: "length A = Suc n" using Suc.prems(1) by (simp add: square_mat_def)
  have tm: "?t (A[k := vadd r s]) i = ?t (A[k := r]) i + ?t (A[k := s]) i" if i: "i < Suc n" for i
  proof (cases "i = k")
    case True
    have "vadd r s ! 0 = r ! 0 + s ! 0" using Suc.prems by simp
    then show ?thesis using True lenA i
      by (simp add: del_row_update_same algebra_simps)
  next
    case False
    define k' where "k' = (if k < i then k else k - 1)"
    define M where "M = map tl (del_row i A)"
    have sqM: "square_mat n M" unfolding M_def using Suc.prems(1) i by (rule square_minor)
    have k': "k' < n" using False i Suc.prems(2) by (auto simp: k'_def)
    have lt: "length (tl r) = n" "length (tl s) = n" using Suc.prems by simp_all
    have IH: "det (M[k' := vadd (tl r) (tl s)]) = det (M[k' := tl r]) + det (M[k' := tl s])"
      using Suc.IH [OF sqM k' lt] .
    have m: "map tl (del_row i (A[k := v])) = M[k' := tl v]" for v
      unfolding M_def k'_def by (rule minor_update_other [OF False])
    have e: "A[k := v] ! i = A ! i" for v using False by simp
    show ?thesis
      by (simp only: m e tl_vadd IH) (simp add: algebra_simps)
  qed
  show ?case
    unfolding det_Suc [OF sq(1)] det_Suc [OF sq(2)] det_Suc [OF sq(3)]
    by (simp only: sum.distrib [symmetric]) (rule sum.cong, simp, simp add: tm del: power_Suc)
qed

lemma det_row_scale:
  "square_mat n A \<Longrightarrow> k < n \<Longrightarrow> length r = n \<Longrightarrow>
     det (A[k := vscale c r]) = c * det (A[k := r])"
proof (induction n arbitrary: A k r)
  case 0
  then show ?case by simp
next
  case (Suc n)
  let ?t = "\<lambda>B i. (- 1) ^ i * (B ! i ! 0) * det (map tl (del_row i B))"
  have sq: "square_mat (Suc n) (A[k := vscale c r])" "square_mat (Suc n) (A[k := r])"
    using Suc.prems by (simp_all add: square_update)
  have lenA: "length A = Suc n" using Suc.prems(1) by (simp add: square_mat_def)
  have tm: "?t (A[k := vscale c r]) i = c * ?t (A[k := r]) i" if i: "i < Suc n" for i
  proof (cases "i = k")
    case True
    have "vscale c r ! 0 = c * r ! 0" using Suc.prems by simp
    then show ?thesis using True lenA i
      by (simp add: del_row_update_same algebra_simps)
  next
    case False
    define k' where "k' = (if k < i then k else k - 1)"
    define M where "M = map tl (del_row i A)"
    have sqM: "square_mat n M" unfolding M_def using Suc.prems(1) i by (rule square_minor)
    have k': "k' < n" using False i Suc.prems(2) by (auto simp: k'_def)
    have lt: "length (tl r) = n" using Suc.prems by simp
    have IH: "det (M[k' := vscale c (tl r)]) = c * det (M[k' := tl r])"
      using Suc.IH [OF sqM k' lt] .
    have m: "map tl (del_row i (A[k := v])) = M[k' := tl v]" for v
      unfolding M_def k'_def by (rule minor_update_other [OF False])
    have e: "A[k := v] ! i = A ! i" for v using False by simp
    show ?thesis
      by (simp only: m e tl_vscale IH) (simp add: algebra_simps)
  qed
  show ?case
    unfolding det_Suc [OF sq(1)] det_Suc [OF sq(2)]
    by (simp only: sum_distrib_left) (rule sum.cong, simp, simp add: tm del: power_Suc)
qed

section \<open>The determinant vanishes on equal rows\<close>

text \<open>
  First for two neighbouring rows, by induction on the size; exchanging two neighbouring
  rows changes the sign; then for any two rows. Replacing two rows by two combinations of
  them multiplies the determinant by the determinant of the coefficients.
\<close>

lemma del_row_adjacent_equal:
  assumes "Suc k < length A" and "A ! k = A ! Suc k"
  shows "del_row k A = del_row (Suc k) A"
proof -
  have k: "k < length A" using assms(1) by simp
  have "take (Suc k) A = take k A @ [A ! k]" using k by (rule take_Suc_conv_app_nth)
  moreover have "drop (Suc k) A = A ! Suc k # drop (Suc (Suc k)) A"
    using assms(1) by (simp add: Cons_nth_drop_Suc)
  ultimately show ?thesis using assms(2) by (simp add: del_row_def)
qed

lemma minor_nth:
  assumes "length A = Suc n" and "i < Suc n" and "j < n"
  shows "map tl (del_row i A) ! j = tl (if j < i then A ! j else A ! Suc j)"
proof -
  have "length (del_row i A) = n" using assms by (simp add: length_del_row)
  then have "map tl (del_row i A) ! j = tl (del_row i A ! j)" using assms(3) by simp
  also have "del_row i A ! j = (if j < i then A ! j else A ! Suc j)"
    using assms by (simp add: del_row_nth)
  finally show ?thesis .
qed

lemma det_adjacent_equal:
  "square_mat n A \<Longrightarrow> Suc k < n \<Longrightarrow> A ! k = A ! Suc k \<Longrightarrow> det A = 0"
proof (induction n arbitrary: A k)
  case 0
  then show ?case by simp
next
  case (Suc n)
  let ?t = "\<lambda>i. (- 1) ^ i * (A ! i ! 0) * det (map tl (del_row i A))"
  have lenA: "length A = Suc n" using Suc.prems(1) by (simp add: square_mat_def)
  have zero: "?t i = 0" if i: "i < Suc n" and ne: "i \<noteq> k" "i \<noteq> Suc k" for i
  proof -
    define M where "M = map tl (del_row i A)"
    have sqM: "square_mat n M" unfolding M_def using Suc.prems(1) i by (rule square_minor)
    define k' where "k' = (if i < k then k - 1 else k)"
    have k': "Suc k' < n" using i ne Suc.prems(2) by (auto simp: k'_def)
    have "M ! k' = M ! Suc k'"
      unfolding M_def using k' ne i Suc.prems(3) lenA
      by (auto simp: minor_nth k'_def)
    from Suc.IH [OF sqM k' this] show ?thesis by (simp add: M_def)
  qed
  have pair: "?t k + ?t (Suc k) = 0"
  proof -
    have "del_row k A = del_row (Suc k) A"
      using Suc.prems(2,3) lenA by (simp add: del_row_adjacent_equal)
    then show ?thesis using Suc.prems(3) by simp
  qed
  have "det A = (\<Sum>i<Suc n. ?t i)" using Suc.prems(1) by (rule det_Suc)
  also have "\<dots> = (\<Sum>i\<in>{k, Suc k}. ?t i)"
  proof (rule sum.mono_neutral_right)
    show "finite {..<Suc n}" by simp
    show "{k, Suc k} \<subseteq> {..<Suc n}" using Suc.prems(2) by auto
    show "\<forall>i\<in>{..<Suc n} - {k, Suc k}. ?t i = 0" using zero by auto
  qed
  also have "\<dots> = ?t k + ?t (Suc k)" by simp
  finally show ?case using pair by simp
qed

lemma det_two_rows_expand:
  assumes sq: "square_mat n A" and ij: "i \<noteq> j" "i < n" "j < n"
    and len: "length x = n" "length y = n"
  shows "det (A[i := vadd (vscale p x) (vscale q y), j := vadd (vscale r x) (vscale s y)])
       = p * r * det (A[i := x, j := x]) + p * s * det (A[i := x, j := y])
       + q * r * det (A[i := y, j := x]) + q * s * det (A[i := y, j := y])"
proof -
  let ?u = "vadd (vscale p x) (vscale q y)"
  have lu: "length ?u = n" using len by simp
  have row_j: "det (A[i := w, j := vadd (vscale r x) (vscale s y)])
      = r * det (A[i := w, j := x]) + s * det (A[i := w, j := y])" if w: "length w = n" for w
  proof -
    have sqw: "square_mat n (A[i := w])" using sq w by (rule square_update)
    have "det (A[i := w, j := vadd (vscale r x) (vscale s y)])
        = det (A[i := w, j := vscale r x]) + det (A[i := w, j := vscale s y])"
      using det_row_add [OF sqw ij(3), of "vscale r x" "vscale s y"] len by simp
    then show ?thesis
      using det_row_scale [OF sqw ij(3) len(1), of r] det_row_scale [OF sqw ij(3) len(2), of s]
      by simp
  qed
  have row_i: "det (A[i := vadd (vscale p x) (vscale q y), j := w])
      = p * det (A[i := x, j := w]) + q * det (A[i := y, j := w])" if w: "length w = n" for w
  proof -
    have sqw: "square_mat n (A[j := w])" using sq w by (rule square_update)
    have sw: "A[i := v, j := w] = A[j := w, i := v]" for v
      using ij(1) by (simp add: list_update_swap)
    have "det (A[j := w, i := vadd (vscale p x) (vscale q y)])
        = det (A[j := w, i := vscale p x]) + det (A[j := w, i := vscale q y])"
      using det_row_add [OF sqw ij(2), of "vscale p x" "vscale q y"] len by simp
    then show ?thesis
      using det_row_scale [OF sqw ij(2) len(1), of p] det_row_scale [OF sqw ij(2) len(2), of q]
      by (simp add: sw)
  qed
  show ?thesis
    by (simp add: row_j [OF lu] row_i [OF len(1)] row_i [OF len(2)] algebra_simps)
qed

lemma det_swap_adjacent:
  assumes sq: "square_mat n A" and k: "Suc k < n"
  shows "det (A[k := A ! Suc k, Suc k := A ! k]) = - det A"
proof -
  define x where "x = A ! k"
  define y where "y = A ! Suc k"
  have lenA: "length A = n" using sq by (simp add: square_mat_def)
  have len: "length x = n" "length y = n"
    using sq k by (simp_all add: x_def y_def square_matD)
  have ne: "k \<noteq> Suc k" by simp
  have k1: "k < n" using k by simp
  have eq0: "det (A[k := w, Suc k := w]) = 0" if "length w = n" for w
  proof (rule det_adjacent_equal [OF _ k])
    show "square_mat n (A[k := w, Suc k := w])"
      using sq that by (simp add: square_update)
    show "A[k := w, Suc k := w] ! k = A[k := w, Suc k := w] ! Suc k"
      using k lenA by simp
  qed
  let ?u = "vadd (vscale 1 x) (vscale 1 y)"
  have "length ?u = n" using len by simp
  from eq0 [OF this]
  have "det (A[k := ?u, Suc k := ?u]) = 0" .
  moreover have "det (A[k := ?u, Suc k := ?u])
       = 1 * 1 * det (A[k := x, Suc k := x]) + 1 * 1 * det (A[k := x, Suc k := y])
       + 1 * 1 * det (A[k := y, Suc k := x]) + 1 * 1 * det (A[k := y, Suc k := y])"
    by (rule det_two_rows_expand [OF sq ne k1 k len])
  ultimately have "det (A[k := x, Suc k := y]) + det (A[k := y, Suc k := x]) = 0"
    using eq0 [OF len(1)] eq0 [OF len(2)] by simp
  moreover have "A[k := x, Suc k := y] = A" by (simp add: x_def y_def)
  ultimately show ?thesis by (simp add: x_def y_def)
qed

lemma det_equal_rows_aux:
  "square_mat n A \<Longrightarrow> Suc (i + d) < n \<Longrightarrow> A ! i = A ! Suc (i + d) \<Longrightarrow> det A = 0"
proof (induction d arbitrary: A)
  case 0
  then show ?case using det_adjacent_equal [of n A i] by simp
next
  case (Suc d)
  define j where "j = Suc (i + d)"
  have j: "Suc j < n" "i < j" using Suc.prems(2) by (simp_all add: j_def)
  have lenA: "length A = n" using Suc.prems(1) by (simp add: square_mat_def)
  define B where "B = A[j := A ! Suc j, Suc j := A ! j]"
  have sqB: "square_mat n B"
    unfolding B_def using Suc.prems(1) j by (simp add: square_update square_matD)
  have "B ! i = A ! i" using j by (simp add: B_def)
  moreover have "B ! j = A ! Suc j" using j lenA by (simp add: B_def)
  ultimately have "B ! i = B ! Suc (i + d)"
    using Suc.prems(3) by (simp add: j_def)
  moreover have "Suc (i + d) < n" using j by (simp add: j_def)
  ultimately have "det B = 0" using Suc.IH [OF sqB] by blast
  moreover have "det B = - det A"
    unfolding B_def by (rule det_swap_adjacent [OF Suc.prems(1) j(1)])
  ultimately show ?case by simp
qed

lemma det_equal_rows:
  assumes "square_mat n A" and "i \<noteq> j" and "i < n" and "j < n" and "A ! i = A ! j"
  shows "det A = 0"
proof (cases "i < j")
  case True
  then obtain d where "j = Suc (i + d)" by (metis less_iff_Suc_add add_Suc_right)
  then show ?thesis using det_equal_rows_aux [OF assms(1), of i d] assms by simp
next
  case False
  with assms(2) have "j < i" by simp
  then obtain d where "i = Suc (j + d)" by (metis less_iff_Suc_add add_Suc_right)
  then show ?thesis using det_equal_rows_aux [OF assms(1), of j d] assms by simp
qed

lemma det_swap_rows:
  assumes sq: "square_mat n A" and ij: "i \<noteq> j" "i < n" "j < n"
  shows "det (A[i := A ! j, j := A ! i]) = - det A"
proof -
  define x where "x = A ! i"
  define y where "y = A ! j"
  have lenA: "length A = n" using sq by (simp add: square_mat_def)
  have len: "length x = n" "length y = n"
    using sq ij by (simp_all add: x_def y_def square_matD)
  have eq0: "det (A[i := w, j := w]) = 0" if "length w = n" for w
  proof (rule det_equal_rows [OF _ ij])
    show "square_mat n (A[i := w, j := w])"
      using sq that by (simp add: square_update)
    show "A[i := w, j := w] ! i = A[i := w, j := w] ! j"
      using ij lenA by simp
  qed
  let ?u = "vadd (vscale 1 x) (vscale 1 y)"
  have "length ?u = n" using len by simp
  from eq0 [OF this]
  have "det (A[i := ?u, j := ?u]) = 0" .
  moreover have "det (A[i := ?u, j := ?u])
       = 1 * 1 * det (A[i := x, j := x]) + 1 * 1 * det (A[i := x, j := y])
       + 1 * 1 * det (A[i := y, j := x]) + 1 * 1 * det (A[i := y, j := y])"
    by (rule det_two_rows_expand [OF sq ij len])
  ultimately have "det (A[i := x, j := y]) + det (A[i := y, j := x]) = 0"
    using eq0 [OF len(1)] eq0 [OF len(2)] by simp
  moreover have "A[i := x, j := y] = A" by (simp add: x_def y_def)
  ultimately show ?thesis by (simp add: x_def y_def)
qed

lemma det_two_rows:
  assumes sq: "square_mat n A" and ij: "i \<noteq> j" "i < n" "j < n"
  shows "det (A[i := vadd (vscale p (A ! i)) (vscale q (A ! j)),
                j := vadd (vscale r (A ! i)) (vscale s (A ! j))])
       = (p * s - q * r) * det A"
proof -
  define x where "x = A ! i"
  define y where "y = A ! j"
  have lenA: "length A = n" using sq by (simp add: square_mat_def)
  have len: "length x = n" "length y = n"
    using sq ij by (simp_all add: x_def y_def square_matD)
  have eq0: "det (A[i := w, j := w]) = 0" if "length w = n" for w
  proof (rule det_equal_rows [OF _ ij])
    show "square_mat n (A[i := w, j := w])"
      using sq that by (simp add: square_update)
    show "A[i := w, j := w] ! i = A[i := w, j := w] ! j"
      using ij lenA by simp
  qed
  have same: "A[i := x, j := y] = A" by (simp add: x_def y_def)
  have swap: "det (A[i := y, j := x]) = - det A"
    unfolding x_def y_def by (rule det_swap_rows [OF sq ij])
  have "det (A[i := vadd (vscale p x) (vscale q y), j := vadd (vscale r x) (vscale s y)])
       = p * r * det (A[i := x, j := x]) + p * s * det (A[i := x, j := y])
       + q * r * det (A[i := y, j := x]) + q * s * det (A[i := y, j := y])"
    by (rule det_two_rows_expand [OF sq ij len])
  also have "\<dots> = (p * s - q * r) * det A"
    using eq0 [OF len(1)] eq0 [OF len(2)] same swap by (simp add: algebra_simps)
  finally show ?thesis by (simp add: x_def y_def)
qed

section \<open>Products, and elementary matrices from the left\<close>

text \<open>
  The product is associative and the identity matrix is neutral. Multiplying by an
  elementary matrix from the left replaces two rows by combinations of them.
\<close>

lemma mat_mul_nth:
  "length A = n \<Longrightarrow> i < n \<Longrightarrow> j < n \<Longrightarrow> mat_mul A B ! i ! j = (\<Sum>k<n. A ! i ! k * B ! k ! j)"
  by (simp add: mat_mul_def)

lemma square_mat_mul: "length A = n \<Longrightarrow> square_mat n (mat_mul A B)"
  by (simp add: mat_mul_def)

lemma length_mat_mul [simp]: "length (mat_mul A B) = length A"
  by (simp add: mat_mul_def)

lemma square_identity [simp]: "square_mat n (identity_matrix n)"
  by (simp add: identity_matrix_def)

lemma square_elem [simp]: "square_mat n (elem_mat n i j p q r s)"
  by (simp add: elem_mat_def)

lemma length_identity [simp]: "length (identity_matrix n) = n"
  by (simp add: identity_matrix_def)

lemma length_elem [simp]: "length (elem_mat n i j p q r s) = n"
  by (simp add: elem_mat_def)

lemma sum_two_points:
  fixes f :: "nat \<Rightarrow> int"
  assumes "i \<noteq> j" and "i < n" and "j < n"
  shows "(\<Sum>k<n. (if k = i then p else if k = j then q else 0) * f k) = p * f i + q * f j"
proof -
  have "(\<Sum>k<n. (if k = i then p else if k = j then q else 0) * f k)
      = (\<Sum>k<n. (if k = i then p * f k else 0) + (if k = j then q * f k else 0))"
    by (rule sum.cong) (use assms(1) in auto)
  also have "\<dots> = (\<Sum>k<n. (if k = i then p * f k else 0)) + (\<Sum>k<n. (if k = j then q * f k else 0))"
    by (rule sum.distrib)
  also have "\<dots> = p * f i + q * f j"
    using assms(2,3) by simp
  finally show ?thesis .
qed

lemma sum_one_point:
  fixes f :: "nat \<Rightarrow> int"
  assumes "a < n"
  shows "(\<Sum>k<n. (if a = k then 1 else 0) * f k) = f a"
proof -
  have "(\<Sum>k<n. (if a = k then 1 else 0) * f k) = (\<Sum>k<n. (if k = a then f k else 0))"
    by (rule sum.cong) auto
  also have "\<dots> = f a" using assms by simp
  finally show ?thesis .
qed

lemma sum_one_point_right:
  fixes f :: "nat \<Rightarrow> int"
  assumes "a < n"
  shows "(\<Sum>k<n. f k * (if k = a then 1 else 0)) = f a"
proof -
  have "(\<Sum>k<n. f k * (if k = a then 1 else 0)) = (\<Sum>k<n. (if k = a then f k else 0))"
    by (rule sum.cong) auto
  also have "\<dots> = f a" using assms by simp
  finally show ?thesis .
qed

lemma mat_mul_identity_left:
  assumes "square_mat n A"
  shows "mat_mul (identity_matrix n) A = A"
proof (rule mat_eqI [OF _ assms])
  show "square_mat n (mat_mul (identity_matrix n) A)" by (simp add: square_mat_mul)
next
  fix i j assume ij: "i < n" "j < n"
  have "mat_mul (identity_matrix n) A ! i ! j = (\<Sum>k<n. identity_matrix n ! i ! k * A ! k ! j)"
    using ij by (simp add: mat_mul_nth)
  also have "\<dots> = (\<Sum>k<n. (if i = k then 1 else 0) * A ! k ! j)"
    by (rule sum.cong) (use ij in \<open>simp_all add: identity_matrix_def\<close>)
  also have "\<dots> = A ! i ! j" using ij(1) by (rule sum_one_point)
  finally show "mat_mul (identity_matrix n) A ! i ! j = A ! i ! j" .
qed

lemma mat_mul_identity_right:
  assumes "square_mat n A"
  shows "mat_mul A (identity_matrix n) = A"
proof (rule mat_eqI [OF _ assms])
  show "square_mat n (mat_mul A (identity_matrix n))"
    using assms by (simp add: square_mat_mul square_matD)
next
  fix i j assume ij: "i < n" "j < n"
  have len: "length A = n" using assms by (simp add: square_matD)
  have "mat_mul A (identity_matrix n) ! i ! j = (\<Sum>k<n. A ! i ! k * identity_matrix n ! k ! j)"
    using ij len by (simp add: mat_mul_nth)
  also have "\<dots> = (\<Sum>k<n. A ! i ! k * (if k = j then 1 else 0))"
    by (rule sum.cong) (use ij in \<open>simp_all add: identity_matrix_def\<close>)
  also have "\<dots> = A ! i ! j" using ij(2) by (rule sum_one_point_right)
  finally show "mat_mul A (identity_matrix n) ! i ! j = A ! i ! j" .
qed

lemma mat_mul_assoc:
  assumes "square_mat n A" and "square_mat n B" and "square_mat n C"
  shows "mat_mul (mat_mul A B) C = mat_mul A (mat_mul B C)"
proof (rule mat_eqI [of n])
  have len: "length A = n" "length B = n" using assms by (simp_all add: square_matD)
  show "square_mat n (mat_mul (mat_mul A B) C)" using len by (simp add: square_mat_mul)
  show "square_mat n (mat_mul A (mat_mul B C))" using len by (simp add: square_mat_mul)
  fix i j assume ij: "i < n" "j < n"
  have "mat_mul (mat_mul A B) C ! i ! j = (\<Sum>k<n. mat_mul A B ! i ! k * C ! k ! j)"
    using ij len by (simp add: mat_mul_nth)
  also have "\<dots> = (\<Sum>k<n. (\<Sum>l<n. A ! i ! l * B ! l ! k) * C ! k ! j)"
    by (rule sum.cong) (use ij len in \<open>simp_all add: mat_mul_nth\<close>)
  also have "\<dots> = (\<Sum>k<n. \<Sum>l<n. A ! i ! l * (B ! l ! k * C ! k ! j))"
    by (simp add: sum_distrib_right mult.assoc)
  also have "\<dots> = (\<Sum>l<n. \<Sum>k<n. A ! i ! l * (B ! l ! k * C ! k ! j))"
    by (rule sum.swap)
  also have "\<dots> = (\<Sum>l<n. A ! i ! l * (\<Sum>k<n. B ! l ! k * C ! k ! j))"
    by (simp add: sum_distrib_left)
  also have "\<dots> = (\<Sum>l<n. A ! i ! l * mat_mul B C ! l ! j)"
    by (rule sum.cong) (use ij len in \<open>simp_all add: mat_mul_nth\<close>)
  also have "\<dots> = mat_mul A (mat_mul B C) ! i ! j"
    using ij len by (simp add: mat_mul_nth)
  finally show "mat_mul (mat_mul A B) C ! i ! j = mat_mul A (mat_mul B C) ! i ! j" .
qed

lemma elem_mul_rows:
  assumes sq: "square_mat n M" and ij: "i \<noteq> j" "i < n" "j < n"
  shows "mat_mul (elem_mat n i j p q r s) M
       = M[i := vadd (vscale p (M ! i)) (vscale q (M ! j)),
           j := vadd (vscale r (M ! i)) (vscale s (M ! j))]"
proof (rule mat_eqI [of n])
  have len: "length M = n" "length (M ! i) = n" "length (M ! j) = n"
    using sq ij by (simp_all add: square_matD)
  show "square_mat n (mat_mul (elem_mat n i j p q r s) M)" by (simp add: square_mat_mul)
  show "square_mat n (M[i := vadd (vscale p (M ! i)) (vscale q (M ! j)),
           j := vadd (vscale r (M ! i)) (vscale s (M ! j))])"
    using sq len by (simp add: square_update)
  fix a b assume ab: "a < n" "b < n"
  have prod: "mat_mul (elem_mat n i j p q r s) M ! a ! b
      = (\<Sum>k<n. elem_mat n i j p q r s ! a ! k * M ! k ! b)"
    using ab by (simp add: mat_mul_nth)
  show "mat_mul (elem_mat n i j p q r s) M ! a ! b
      = M[i := vadd (vscale p (M ! i)) (vscale q (M ! j)),
          j := vadd (vscale r (M ! i)) (vscale s (M ! j))] ! a ! b"
  proof (cases "a = i")
    case True
    have "(\<Sum>k<n. elem_mat n i j p q r s ! a ! k * M ! k ! b)
        = (\<Sum>k<n. (if k = i then p else if k = j then q else 0) * M ! k ! b)"
      by (rule sum.cong) (use ab True in \<open>simp_all add: elem_mat_def\<close>)
    also have "\<dots> = p * M ! i ! b + q * M ! j ! b"
      by (rule sum_two_points [OF ij])
    finally show ?thesis using prod True ij len ab by simp
  next
    case ai: False
    show ?thesis
    proof (cases "a = j")
      case True
      have "(\<Sum>k<n. elem_mat n i j p q r s ! a ! k * M ! k ! b)
          = (\<Sum>k<n. (if k = i then r else if k = j then s else 0) * M ! k ! b)"
        by (rule sum.cong) (use ab True ij in \<open>simp_all add: elem_mat_def\<close>)
      also have "\<dots> = r * M ! i ! b + s * M ! j ! b"
        by (rule sum_two_points [OF ij])
      finally show ?thesis using prod True ij len ab by simp
    next
      case False
      have "(\<Sum>k<n. elem_mat n i j p q r s ! a ! k * M ! k ! b)
          = (\<Sum>k<n. (if a = k then 1 else 0) * M ! k ! b)"
        by (rule sum.cong) (use ab ai False in \<open>simp_all add: elem_mat_def\<close>)
      also have "\<dots> = M ! a ! b" using ab(1) by (rule sum_one_point)
      finally show ?thesis using prod ai False by simp
    qed
  qed
qed

lemma det_elem_mul:
  assumes "square_mat n M" and "i \<noteq> j" and "i < n" and "j < n"
  shows "det (mat_mul (elem_mat n i j p q r s) M) = (p * s - q * r) * det M"
  unfolding elem_mul_rows [OF assms] by (rule det_two_rows [OF assms])

section \<open>Identity and diagonal matrices\<close>

text \<open>
  The identity matrix has determinant 1, a diagonal matrix the product of its diagonal.
\<close>

lemma minor_entry:
  assumes "square_mat (Suc n) A" and "i < Suc n" and "a < n" and "b < n"
  shows "map tl (del_row i A) ! a ! b = A ! (if a < i then a else Suc a) ! Suc b"
proof -
  have len: "length A = Suc n" using assms(1) by (simp add: square_matD)
  have row: "length (A ! (if a < i then a else Suc a)) = Suc n"
    using assms by (simp add: square_matD)
  have "map tl (del_row i A) ! a = tl (A ! (if a < i then a else Suc a))"
    using minor_nth [OF len assms(2,3)] by (simp split: if_splits)
  then show ?thesis using row assms(4) by (simp add: nth_tl)
qed

lemma minor_identity: "map tl (del_row 0 (identity_matrix (Suc n))) = identity_matrix n"
proof (rule mat_eqI [of n])
  show "square_mat n (map tl (del_row 0 (identity_matrix (Suc n))))"
    by (rule square_minor) simp_all
  show "square_mat n (identity_matrix n)" by simp
  fix a b assume ab: "a < n" "b < n"
  have "map tl (del_row 0 (identity_matrix (Suc n))) ! a ! b = identity_matrix (Suc n) ! Suc a ! Suc b"
    using minor_entry [of n "identity_matrix (Suc n)" 0 a b] ab by simp
  then show "map tl (del_row 0 (identity_matrix (Suc n))) ! a ! b = identity_matrix n ! a ! b"
    using ab by (simp add: identity_matrix_def)
qed

lemma det_identity: "det (identity_matrix n) = 1"
proof (induction n)
  case 0
  then show ?case by (simp add: identity_matrix_def mk_mat_def)
next
  case (Suc n)
  let ?I = "identity_matrix (Suc n)"
  have "det ?I = (\<Sum>i<Suc n. (- 1) ^ i * (?I ! i ! 0) * det (map tl (del_row i ?I)))"
    by (rule det_Suc) simp
  also have "\<dots> = (\<Sum>i<Suc n. if i = 0 then det (map tl (del_row 0 ?I)) else 0)"
    by (rule sum.cong) (simp_all add: identity_matrix_def)
  also have "\<dots> = det (map tl (del_row 0 ?I))" by simp
  finally show ?case using Suc.IH by (simp add: minor_identity)
qed

lemma scale_rows_0:
  assumes "square_mat n M"
  shows "scale_rows n 0 c M = M"
  by (rule mat_eqI [OF _ assms]) (simp_all add: scale_rows_def)

lemma scale_rows_Suc:
  assumes sq: "square_mat n M" and k: "k < n"
  shows "scale_rows n (Suc k) c M
       = (scale_rows n k c M)[k := vscale (c k) (scale_rows n k c M ! k)]"
proof (rule mat_eqI [of n])
  show "square_mat n (scale_rows n (Suc k) c M)" by (simp add: scale_rows_def)
  have lr: "length (scale_rows n k c M ! k) = n"
    using k by (simp add: scale_rows_def mk_mat_row)
  show "square_mat n ((scale_rows n k c M)[k := vscale (c k) (scale_rows n k c M ! k)])"
    by (rule square_update) (simp_all add: scale_rows_def lr [unfolded scale_rows_def])
  fix a b assume ab: "a < n" "b < n"
  show "scale_rows n (Suc k) c M ! a ! b
      = (scale_rows n k c M)[k := vscale (c k) (scale_rows n k c M ! k)] ! a ! b"
  proof (cases "a = k")
    case True
    have "(scale_rows n k c M)[k := vscale (c k) (scale_rows n k c M ! k)] ! a ! b
        = vscale (c k) (scale_rows n k c M ! k) ! b"
      using True k by (simp add: scale_rows_def)
    also have "\<dots> = c k * scale_rows n k c M ! k ! b" using lr ab by simp
    also have "\<dots> = c k * M ! k ! b" using k ab by (simp add: scale_rows_def)
    finally show ?thesis using True ab by (simp add: scale_rows_def)
  next
    case False
    then show ?thesis using ab by (auto simp: scale_rows_def)
  qed
qed

lemma det_scale_rows:
  assumes sq: "square_mat n M"
  shows "k \<le> n \<Longrightarrow> det (scale_rows n k c M) = (\<Prod>a<k. c a) * det M"
proof (induction k)
  case 0
  then show ?case by (simp add: scale_rows_0 [OF sq])
next
  case (Suc k)
  then have k: "k < n" by simp
  let ?S = "scale_rows n k c M"
  have sqS: "square_mat n ?S" by (simp add: scale_rows_def)
  have lr: "length (?S ! k) = n" using k by (simp add: scale_rows_def mk_mat_row)
  have "det (scale_rows n (Suc k) c M) = det (?S[k := vscale (c k) (?S ! k)])"
    by (simp only: scale_rows_Suc [OF sq k])
  also have "\<dots> = c k * det (?S[k := ?S ! k])"
    by (rule det_row_scale [OF sqS k lr])
  also have "\<dots> = c k * det ?S" by simp
  finally show ?case using Suc.IH k by simp
qed

lemma diagonal_mul:
  assumes "square_mat n M" and "length ds = n"
  shows "mat_mul (diagonal_matrix ds) M = scale_rows n n (\<lambda>a. ds ! a) M"
proof (rule mat_eqI [of n])
  show "square_mat n (mat_mul (diagonal_matrix ds) M)"
    using assms(2) by (simp add: square_mat_mul diagonal_matrix_def)
  show "square_mat n (scale_rows n n (\<lambda>a. ds ! a) M)" by (simp add: scale_rows_def)
  fix a b assume ab: "a < n" "b < n"
  have "mat_mul (diagonal_matrix ds) M ! a ! b = (\<Sum>k<n. diagonal_matrix ds ! a ! k * M ! k ! b)"
    using ab assms(2) by (simp add: mat_mul_nth diagonal_matrix_def)
  also have "\<dots> = (\<Sum>k<n. (if k = a then ds ! a * M ! k ! b else 0))"
    by (rule sum.cong) (use ab assms(2) in \<open>auto simp: diagonal_matrix_def\<close>)
  also have "\<dots> = ds ! a * M ! a ! b" using ab by simp
  finally show "mat_mul (diagonal_matrix ds) M ! a ! b = scale_rows n n (\<lambda>a. ds ! a) M ! a ! b"
    using ab by (simp add: scale_rows_def)
qed

lemma prod_list_nth: "prod_list (ds :: int list) = (\<Prod>a<length ds. ds ! a)"
proof (induction ds rule: rev_induct)
  case Nil
  then show ?case by simp
next
  case (snoc x xs)
  have "(\<Prod>a<length xs. (xs @ [x]) ! a) = (\<Prod>a<length xs. xs ! a)"
    by (rule prod.cong) (simp_all add: nth_append)
  then show ?case using snoc by (simp add: nth_append)
qed

lemma det_diagonal_mul:
  assumes "square_mat n M" and "length ds = n"
  shows "det (mat_mul (diagonal_matrix ds) M) = prod_list ds * det M"
  using det_scale_rows [OF assms(1), of n "\<lambda>a. ds ! a"] assms(2)
  by (simp add: diagonal_mul [OF assms] prod_list_nth)

lemma det_diagonal: "det (diagonal_matrix ds) = prod_list ds"
proof -
  have sq: "square_mat (length ds) (diagonal_matrix ds)" by (simp add: diagonal_matrix_def)
  have "det (mat_mul (diagonal_matrix ds) (identity_matrix (length ds))) = prod_list ds * det (identity_matrix (length ds))"
    by (rule det_diagonal_mul) simp_all
  then show ?thesis by (simp add: mat_mul_identity_right [OF sq] det_identity)
qed

section \<open>Products of elementary matrices\<close>

text \<open>
  They have determinant 1 or -1, multiply the determinant of a matrix they meet from the
  left by their own, are closed under products and have inverses of the same kind.
\<close>

lemma elem_nth:
  "a < n \<Longrightarrow> b < n \<Longrightarrow> elem_mat n i j p q r s ! a ! b =
     (if a = i then (if b = i then p else if b = j then q else 0)
      else if a = j then (if b = i then r else if b = j then s else 0)
      else (if a = b then 1 else 0))"
  by (simp add: elem_mat_def)

lemma elem_compose:
  assumes ij: "i \<noteq> j" "i < n" "j < n"
  shows "mat_mul (elem_mat n i j a b c d) (elem_mat n i j p q r s)
       = elem_mat n i j (a * p + b * r) (a * q + b * s) (c * p + d * r) (c * q + d * s)"
proof (rule mat_eqI [of n])
  let ?M = "elem_mat n i j p q r s"
  show "square_mat n (mat_mul (elem_mat n i j a b c d) ?M)" by (simp add: square_mat_mul)
  show "square_mat n (elem_mat n i j (a * p + b * r) (a * q + b * s) (c * p + d * r) (c * q + d * s))"
    by simp
  fix x y assume xy: "x < n" "y < n"
  have len: "length ?M = n" "length (?M ! i) = n" "length (?M ! j) = n"
    using ij by (simp_all add: square_matD [OF square_elem])
  have rows: "mat_mul (elem_mat n i j a b c d) ?M
      = ?M[i := vadd (vscale a (?M ! i)) (vscale b (?M ! j)),
           j := vadd (vscale c (?M ! i)) (vscale d (?M ! j))]"
    by (rule elem_mul_rows [OF square_elem ij])
  show "mat_mul (elem_mat n i j a b c d) ?M ! x ! y
      = elem_mat n i j (a * p + b * r) (a * q + b * s) (c * p + d * r) (c * q + d * s) ! x ! y"
  proof (cases "x = i")
    case True
    then show ?thesis unfolding rows using ij xy len
      by (simp add: elem_nth)
  next
    case xi: False
    show ?thesis
    proof (cases "x = j")
      case True
      then show ?thesis unfolding rows using ij xy len
        by (simp add: elem_nth)
    next
      case False
      then show ?thesis unfolding rows using ij xy len xi
        by (simp add: elem_nth)
    qed
  qed
qed

lemma elem_unit:
  assumes "i \<noteq> j"
  shows "elem_mat n i j 1 0 0 1 = identity_matrix n"
  by (rule mat_eqI [of n]) (use assms in \<open>auto simp: elem_nth identity_matrix_def\<close>)

lemma elem_inverse:
  assumes ij: "i \<noteq> j" "i < n" "j < n" and e: "e = p * s - q * r" and u: "e * e = 1"
  shows "mat_mul (elem_mat n i j (e * s) (- (e * q)) (- (e * r)) (e * p)) (elem_mat n i j p q r s)
       = identity_matrix n"
    and "mat_mul (elem_mat n i j p q r s) (elem_mat n i j (e * s) (- (e * q)) (- (e * r)) (e * p))
       = identity_matrix n"
proof -
  have ee: "e * (p * s - q * r) = 1" using e u by simp
  have e1: "e * s * p + - (e * q) * r = 1" "e * s * q + - (e * q) * s = 0"
    "- (e * r) * p + e * p * r = 0" "- (e * r) * q + e * p * s = 1"
    using ee by (simp_all add: algebra_simps)
  have e2: "p * (e * s) + q * - (e * r) = 1" "p * - (e * q) + q * (e * p) = 0"
    "r * (e * s) + s * - (e * r) = 0" "r * - (e * q) + s * (e * p) = 1"
    using ee by (simp_all add: algebra_simps)
  show "mat_mul (elem_mat n i j (e * s) (- (e * q)) (- (e * r)) (e * p)) (elem_mat n i j p q r s)
       = identity_matrix n"
    unfolding elem_compose [OF ij] e1 by (rule elem_unit [OF ij(1)])
  show "mat_mul (elem_mat n i j p q r s) (elem_mat n i j (e * s) (- (e * q)) (- (e * r)) (e * p))
       = identity_matrix n"
    unfolding elem_compose [OF ij] e2 by (rule elem_unit [OF ij(1)])
qed

lemma abs_one_square:
  fixes e :: int
  assumes "\<bar>e\<bar> = 1"
  shows "e * e = 1"
proof -
  have "e = 1 \<or> e = - 1" using assms by linarith
  then show ?thesis by auto
qed

lemma det_elem:
  assumes "i \<noteq> j" and "i < n" and "j < n"
  shows "det (elem_mat n i j p q r s) = p * s - q * r"
  using det_elem_mul [OF square_identity assms, of p q r s]
  by (simp add: mat_mul_identity_right det_identity)

lemma eprod_square: "eprod n P \<Longrightarrow> square_mat n P"
  by (induction rule: eprod.induct) (simp_all add: square_mat_mul)

lemma eprod_det_mul:
  assumes "eprod n P" and "square_mat n M"
  shows "det (mat_mul P M) = det P * det M"
  using assms
proof (induction rule: eprod.induct)
  case eprod_id
  then show ?case by (simp add: mat_mul_identity_left det_identity)
next
  case (eprod_step P i j p s q r)
  have sqP: "square_mat n P" using eprod_step.hyps(1) by (rule eprod_square)
  have sqPM: "square_mat n (mat_mul P M)" using sqP by (simp add: square_mat_mul square_matD)
  have "mat_mul (mat_mul (elem_mat n i j p q r s) P) M
      = mat_mul (elem_mat n i j p q r s) (mat_mul P M)"
    by (rule mat_mul_assoc [OF square_elem sqP eprod_step.prems])
  then have "det (mat_mul (mat_mul (elem_mat n i j p q r s) P) M)
      = (p * s - q * r) * det (mat_mul P M)"
    using det_elem_mul [OF sqPM eprod_step.hyps(2,3,4)] by simp
  moreover have "det (mat_mul (elem_mat n i j p q r s) P) = (p * s - q * r) * det P"
    by (rule det_elem_mul [OF sqP eprod_step.hyps(2,3,4)])
  ultimately show ?case using eprod_step.IH [OF eprod_step.prems] by simp
qed

lemma eprod_det: "eprod n P \<Longrightarrow> \<bar>det P\<bar> = 1"
proof (induction rule: eprod.induct)
  case eprod_id
  then show ?case by (simp add: det_identity)
next
  case (eprod_step P i j p s q r)
  have sqP: "square_mat n P" using eprod_step.hyps(1) by (rule eprod_square)
  have "det (mat_mul (elem_mat n i j p q r s) P) = (p * s - q * r) * det P"
    by (rule det_elem_mul [OF sqP eprod_step.hyps(2,3,4)])
  then show ?case using eprod_step.hyps(5) eprod_step.IH by (simp add: abs_mult)
qed

lemma eprod_mul:
  assumes "eprod n P" and "eprod n Q"
  shows "eprod n (mat_mul P Q)"
  using assms
proof (induction rule: eprod.induct)
  case eprod_id
  then show ?case by (simp add: mat_mul_identity_left eprod_square)
next
  case (eprod_step P i j p s q r)
  have sqP: "square_mat n P" using eprod_step.hyps(1) by (rule eprod_square)
  have sqQ: "square_mat n Q" using eprod_step.prems by (rule eprod_square)
  have "mat_mul (mat_mul (elem_mat n i j p q r s) P) Q
      = mat_mul (elem_mat n i j p q r s) (mat_mul P Q)"
    by (rule mat_mul_assoc [OF square_elem sqP sqQ])
  moreover have "eprod n (mat_mul (elem_mat n i j p q r s) (mat_mul P Q))"
    using eprod_step by (intro eprod.eprod_step) simp_all
  ultimately show ?case by simp
qed

lemma eprod_elem:
  assumes "i \<noteq> j" and "i < n" and "j < n" and "\<bar>p * s - q * r\<bar> = 1"
  shows "eprod n (elem_mat n i j p q r s)"
proof -
  have "eprod n (mat_mul (elem_mat n i j p q r s) (identity_matrix n))"
    using assms by (intro eprod_step eprod_id)
  then show ?thesis by (simp add: mat_mul_identity_right)
qed

lemma eprod_inverse:
  assumes "eprod n P"
  shows "\<exists>Q. eprod n Q \<and> mat_mul Q P = identity_matrix n \<and> mat_mul P Q = identity_matrix n"
  using assms
proof (induction rule: eprod.induct)
  case eprod_id
  have "eprod n (identity_matrix n)" by (rule eprod.eprod_id)
  moreover have "mat_mul (identity_matrix n) (identity_matrix n) = identity_matrix n"
    by (simp add: mat_mul_identity_left)
  ultimately show ?case by blast
next
  case (eprod_step P i j p s q r)
  then obtain Q where Q: "eprod n Q" "mat_mul Q P = identity_matrix n"
    "mat_mul P Q = identity_matrix n" by blast
  define e where "e = p * s - q * r"
  have u: "e * e = 1" using eprod_step.hyps(5) unfolding e_def by (rule abs_one_square)
  let ?E = "elem_mat n i j p q r s"
  let ?F = "elem_mat n i j (e * s) (- (e * q)) (- (e * r)) (e * p)"
  have sqP: "square_mat n P" using eprod_step.hyps(1) by (rule eprod_square)
  have sqQ: "square_mat n Q" using Q(1) by (rule eprod_square)
  have sqE: "square_mat n ?E" "square_mat n ?F" by simp_all
  have sqEP: "square_mat n (mat_mul ?E P)" by (simp add: square_mat_mul)
  have sqQF: "square_mat n (mat_mul Q ?F)" using sqQ by (simp add: square_mat_mul square_matD)
  have FE: "mat_mul ?F ?E = identity_matrix n" and EF: "mat_mul ?E ?F = identity_matrix n"
    using elem_inverse [OF eprod_step.hyps(2,3,4) e_def u] by simp_all
  have "e * s * (e * p) - (- (e * q)) * (- (e * r)) = e * e * (p * s - q * r)"
    by (simp add: algebra_simps)
  then have detF: "\<bar>e * s * (e * p) - (- (e * q)) * (- (e * r))\<bar> = 1"
    using u eprod_step.hyps(5) by simp
  have "eprod n ?F" using eprod_step.hyps(2,3,4) detF by (rule eprod_elem)
  with Q(1) have ep: "eprod n (mat_mul Q ?F)" by (rule eprod_mul)
  have "mat_mul (mat_mul Q ?F) (mat_mul ?E P) = mat_mul Q (mat_mul ?F (mat_mul ?E P))"
    by (rule mat_mul_assoc [OF sqQ sqE(2) sqEP])
  also have "mat_mul ?F (mat_mul ?E P) = mat_mul (mat_mul ?F ?E) P"
    by (rule mat_mul_assoc [OF sqE(2) sqE(1) sqP, symmetric])
  also have "\<dots> = P" unfolding FE by (rule mat_mul_identity_left [OF sqP])
  finally have l: "mat_mul (mat_mul Q ?F) (mat_mul ?E P) = identity_matrix n" using Q(2) by simp
  have "mat_mul (mat_mul ?E P) (mat_mul Q ?F) = mat_mul ?E (mat_mul P (mat_mul Q ?F))"
    by (rule mat_mul_assoc [OF sqE(1) sqP sqQF])
  also have "mat_mul P (mat_mul Q ?F) = mat_mul (mat_mul P Q) ?F"
    by (rule mat_mul_assoc [OF sqP sqQ sqE(2), symmetric])
  also have "\<dots> = ?F" unfolding Q(3) by (rule mat_mul_identity_left [OF sqE(2)])
  finally have r: "mat_mul (mat_mul ?E P) (mat_mul Q ?F) = identity_matrix n" using EF by simp
  from ep l r show ?case by blast
qed

section \<open>Entries after an elementary operation\<close>

text \<open>
  The entries of a product with an elementary matrix, from the left and from the right,
  and what the coefficients of a clearing step satisfy.
\<close>

lemma elem_mul_left_nth:
  assumes sq: "square_mat n M" and ij: "i \<noteq> j" "i < n" "j < n" and ab: "a < n" "b < n"
  shows "mat_mul (elem_mat n i j p q r s) M ! a ! b
       = (if a = i then p * M ! i ! b + q * M ! j ! b
          else if a = j then r * M ! i ! b + s * M ! j ! b
          else M ! a ! b)"
proof -
  have len: "length M = n" "length (M ! i) = n" "length (M ! j) = n"
    using sq ij by (simp_all add: square_matD)
  show ?thesis
    unfolding elem_mul_rows [OF sq ij] using ij ab len by auto
qed

lemma sum_two_points_right:
  fixes f :: "nat \<Rightarrow> int"
  assumes "i \<noteq> j" and "i < n" and "j < n"
  shows "(\<Sum>k<n. f k * (if k = i then p else if k = j then q else 0)) = f i * p + f j * q"
proof -
  have "(\<Sum>k<n. f k * (if k = i then p else if k = j then q else 0))
      = (\<Sum>k<n. (if k = i then p else if k = j then q else 0) * f k)"
    by (simp add: mult.commute)
  also have "\<dots> = p * f i + q * f j" by (rule sum_two_points [OF assms])
  finally show ?thesis by (simp add: mult.commute)
qed

lemma elem_mul_right_nth:
  assumes sq: "square_mat n M" and ij: "i \<noteq> j" "i < n" "j < n" and ab: "a < n" "b < n"
  shows "mat_mul M (elem_mat n i j p q r s) ! a ! b
       = (if b = i then p * M ! a ! i + r * M ! a ! j
          else if b = j then q * M ! a ! i + s * M ! a ! j
          else M ! a ! b)"
proof -
  have len: "length M = n" using sq by (simp add: square_matD)
  have prod: "mat_mul M (elem_mat n i j p q r s) ! a ! b
      = (\<Sum>k<n. M ! a ! k * elem_mat n i j p q r s ! k ! b)"
    using ab len by (simp add: mat_mul_nth)
  show ?thesis
  proof (cases "b = i")
    case True
    have "(\<Sum>k<n. M ! a ! k * elem_mat n i j p q r s ! k ! b)
        = (\<Sum>k<n. M ! a ! k * (if k = i then p else if k = j then r else 0))"
      by (rule sum.cong) (use ab True ij in \<open>auto simp: elem_nth\<close>)
    also have "\<dots> = M ! a ! i * p + M ! a ! j * r"
      by (rule sum_two_points_right [OF ij])
    finally show ?thesis using prod True by (simp add: mult.commute)
  next
    case bi: False
    show ?thesis
    proof (cases "b = j")
      case True
      have "(\<Sum>k<n. M ! a ! k * elem_mat n i j p q r s ! k ! b)
          = (\<Sum>k<n. M ! a ! k * (if k = i then q else if k = j then s else 0))"
        by (rule sum.cong) (use ab True ij in \<open>auto simp: elem_nth\<close>)
      also have "\<dots> = M ! a ! i * q + M ! a ! j * s"
        by (rule sum_two_points_right [OF ij])
      finally show ?thesis using prod True bi by (simp add: mult.commute)
    next
      case False
      have "(\<Sum>k<n. M ! a ! k * elem_mat n i j p q r s ! k ! b)
          = (\<Sum>k<n. M ! a ! k * (if k = b then 1 else 0))"
        by (rule sum.cong) (use ab bi False ij in \<open>auto simp: elem_nth\<close>)
      also have "\<dots> = M ! a ! b" using ab(2) by (rule sum_one_point_right)
      finally show ?thesis using prod bi False by simp
    qed
  qed
qed

lemma elim_coeffs_general:
  assumes y: "y \<noteq> 0" and nd: "\<not> (x \<noteq> 0 \<and> x dvd y)"
  shows "\<exists>p q r s. elim_coeffs x y = (p, q, r, s) \<and> \<bar>p * s - q * r\<bar> = 1 \<and> r * x + s * y = 0
           \<and> p * x + q * y \<noteq> 0 \<and> (x \<noteq> 0 \<longrightarrow> \<bar>p * x + q * y\<bar> < \<bar>x\<bar>)"
proof (cases "x = 0")
  case True
  then show ?thesis using y by (simp add: elim_coeffs_def)
next
  case x0: False
  obtain g a b where x: "xgcd x y = (g, a, b)" by (metis prod_cases3)
  from xgcd_correct [OF x] have g: "g = gcd x y" and bez: "a * x + b * y = g" by simp_all
  have gpos: "0 < g" using y g by (simp add: gcd_pos_int)
  have gx: "g dvd x" and gy: "g dvd y" using g by simp_all
  have xs: "x div g * g = x" and ys: "y div g * g = y" using gx gy by simp_all
  have co: "elim_coeffs x y = (a, b, - (y div g), x div g)"
    using nd x x0 by (auto simp: elim_coeffs_def)
  have "(a * (x div g) - b * (- (y div g))) * g = a * (x div g * g) + b * (y div g * g)"
    by (simp add: algebra_simps)
  also have "\<dots> = g" using bez xs ys by simp
  finally have d1: "a * (x div g) - b * (- (y div g)) = 1" using gpos by simp
  have "(- (y div g)) * x + (x div g) * y = - (y div g) * (x div g * g) + (x div g) * (y div g * g)"
    using xs ys by simp
  also have "\<dots> = 0" by (simp add: algebra_simps)
  finally have d2: "(- (y div g)) * x + (x div g) * y = 0" .
  have d3: "a * x + b * y \<noteq> 0" using bez gpos by simp
  have d4: "\<bar>a * x + b * y\<bar> < \<bar>x\<bar>" if x0: "x \<noteq> 0"
  proof -
    have "g \<le> \<bar>x\<bar>" using gx x0 gpos by (metis abs_ge_zero dvd_imp_le_int abs_of_pos)
    moreover have "g \<noteq> \<bar>x\<bar>"
    proof
      assume "g = \<bar>x\<bar>"
      then have "\<bar>x\<bar> dvd y" using gy by simp
      then have "x dvd y" by simp
      with nd x0 show False by simp
    qed
    ultimately show ?thesis using bez gpos by simp
  qed
  have d1': "\<bar>a * (x div g) - b * (- (y div g))\<bar> = 1" using d1 by simp
  show ?thesis using co d1' d2 d3 d4 by blast
qed

section \<open>The loop of the Smith form ends\<close>

text \<open>
  A step at the pivot makes the measure of the pivot smaller in the lexicographic order.
\<close>

lemma filter_length_le:
  "\<forall>i\<in>set xs. Q i \<longrightarrow> P i \<Longrightarrow> length (filter Q xs) \<le> length (filter P xs)"
  by (induction xs) auto

lemma filter_length_less:
  "\<forall>i\<in>set xs. Q i \<longrightarrow> P i \<Longrightarrow> k \<in> set xs \<Longrightarrow> P k \<Longrightarrow> \<not> Q k \<Longrightarrow>
     length (filter Q xs) < length (filter P xs)"
proof (induction xs)
  case Nil
  then show ?case by simp
next
  case (Cons x xs)
  have le: "length (filter Q xs) \<le> length (filter P xs)"
    using Cons.prems(1) by (intro filter_length_le) simp
  show ?case
  proof (cases "x = k")
    case True
    then show ?thesis using Cons.prems le by simp
  next
    case False
    then have "k \<in> set xs" using Cons.prems(2) by simp
    then have "length (filter Q xs) < length (filter P xs)"
      using Cons.IH Cons.prems by simp
    then show ?thesis using Cons.prems(1) by auto
  qed
qed

lemma pivot_measure_decreases:
  assumes "g \<noteq> 0" and "x \<noteq> 0 \<longrightarrow> \<bar>g\<bar> < \<bar>x\<bar>"
  shows "(((if g = 0 then 1 else 0), nat \<bar>g\<bar>, c'), ((if x = 0 then 1 else 0), nat \<bar>x\<bar>, c))
       \<in> less_than <*lex*> less_than <*lex*> less_than"
  using assms by (cases "x = 0") simp_all

lemma row_step_decreases:
  assumes t: "t < n" and sq: "square_mat n A" and k: "t < k" "k < n" and y: "A ! k ! t \<noteq> 0"
    and co: "elim_coeffs (A ! t ! t) (A ! k ! t) = (p, q, r, s)"
  shows "(diag_measure n t (mat_mul (elem_mat n t k p q r s) A), diag_measure n t A)
       \<in> less_than <*lex*> less_than <*lex*> less_than"
proof -
  let ?x = "A ! t ! t" and ?y = "A ! k ! t"
  let ?A' = "mat_mul (elem_mat n t k p q r s) A"
  have tk: "t \<noteq> k" using k by simp
  have ent: "?A' ! a ! b = (if a = t then p * A ! t ! b + q * A ! k ! b
          else if a = k then r * A ! t ! b + s * A ! k ! b else A ! a ! b)"
    if "a < n" "b < n" for a b
    using elem_mul_left_nth [OF sq tk t k(2) that] .
  show ?thesis
  proof (cases "?x \<noteq> 0 \<and> ?x dvd ?y")
    case True
    then have c: "p = 1" "q = 0" "r = - (?y div ?x)" "s = 1"
      using co by (simp_all add: elim_coeffs_def)
    have piv: "?A' ! t ! t = ?x" using ent [OF t t] c by simp
    have zero: "?A' ! k ! t = 0" using ent [OF k(2) t] c tk True by simp
    have col: "?A' ! i ! t = A ! i ! t" if "i < n" "i \<noteq> k" for i
      using ent [OF that(1) t] c that by simp
    have row: "?A' ! t ! j = A ! t ! j" if "j < n" for j
      using ent [OF t that] c by simp
    have f1: "length (filter (\<lambda>i. ?A' ! i ! t \<noteq> 0) [Suc t..<n])
        < length (filter (\<lambda>i. A ! i ! t \<noteq> 0) [Suc t..<n])"
    proof (rule filter_length_less [where k = k])
      show "\<forall>i\<in>set [Suc t..<n]. ?A' ! i ! t \<noteq> 0 \<longrightarrow> A ! i ! t \<noteq> 0"
        using col zero by (metis atLeastLessThan_iff set_upt)
      show "k \<in> set [Suc t..<n]" using k by simp
      show "A ! k ! t \<noteq> 0" by (rule y)
      show "\<not> ?A' ! k ! t \<noteq> 0" using zero by simp
    qed
    have f2: "filter (\<lambda>j. ?A' ! t ! j \<noteq> 0) [Suc t..<n] = filter (\<lambda>j. A ! t ! j \<noteq> 0) [Suc t..<n]"
      by (rule filter_cong) (simp_all add: row)
    show ?thesis
      unfolding diag_measure_def crossc_def piv f2 using f1 by simp
  next
    case False
    from elim_coeffs_general [OF y False] co
    have g: "p * ?x + q * ?y \<noteq> 0" "?x \<noteq> 0 \<longrightarrow> \<bar>p * ?x + q * ?y\<bar> < \<bar>?x\<bar>" by simp_all
    have piv: "?A' ! t ! t = p * ?x + q * ?y" using ent [OF t t] by simp
    show ?thesis
      unfolding diag_measure_def piv by (rule pivot_measure_decreases [OF g])
  qed
qed

lemma col_step_decreases:
  assumes t: "t < n" and sq: "square_mat n A" and j: "t < j" "j < n" and y: "A ! t ! j \<noteq> 0"
    and clear: "\<forall>k\<in>set [Suc t..<n]. A ! k ! t = 0"
    and co: "elim_coeffs (A ! t ! t) (A ! t ! j) = (p, q, r, s)"
  shows "(diag_measure n t (mat_mul A (elem_mat n t j p r q s)), diag_measure n t A)
       \<in> less_than <*lex*> less_than <*lex*> less_than"
proof -
  let ?x = "A ! t ! t" and ?y = "A ! t ! j"
  let ?A' = "mat_mul A (elem_mat n t j p r q s)"
  have tj: "t \<noteq> j" using j by simp
  have ent: "?A' ! a ! b = (if b = t then p * A ! a ! t + q * A ! a ! j
          else if b = j then r * A ! a ! t + s * A ! a ! j else A ! a ! b)"
    if "a < n" "b < n" for a b
    using elem_mul_right_nth [OF sq tj t j(2) that] .
  show ?thesis
  proof (cases "?x \<noteq> 0 \<and> ?x dvd ?y")
    case True
    then have c: "p = 1" "q = 0" "r = - (?y div ?x)" "s = 1"
      using co by (simp_all add: elim_coeffs_def)
    have piv: "?A' ! t ! t = ?x" using ent [OF t t] c by simp
    have zero: "?A' ! t ! j = 0" using ent [OF t j(2)] c tj True by simp
    have col: "?A' ! i ! t = A ! i ! t" if "i < n" for i
      using ent [OF that t] c by simp
    have row: "?A' ! t ! b = A ! t ! b" if "b < n" "b \<noteq> j" "b \<noteq> t" for b
      using ent [OF t that(1)] c that by simp
    have f2: "length (filter (\<lambda>b. ?A' ! t ! b \<noteq> 0) [Suc t..<n])
        < length (filter (\<lambda>b. A ! t ! b \<noteq> 0) [Suc t..<n])"
    proof (rule filter_length_less [where k = j])
      show "\<forall>b\<in>set [Suc t..<n]. ?A' ! t ! b \<noteq> 0 \<longrightarrow> A ! t ! b \<noteq> 0"
      proof
        fix b assume b: "b \<in> set [Suc t..<n]"
        show "?A' ! t ! b \<noteq> 0 \<longrightarrow> A ! t ! b \<noteq> 0"
        proof (cases "b = j")
          case True
          then show ?thesis using zero by simp
        next
          case False
          then show ?thesis using row [of b] b by simp
        qed
      qed
      show "j \<in> set [Suc t..<n]" using j by simp
      show "A ! t ! j \<noteq> 0" by (rule y)
      show "\<not> ?A' ! t ! j \<noteq> 0" using zero by simp
    qed
    have f1: "filter (\<lambda>i. ?A' ! i ! t \<noteq> 0) [Suc t..<n] = filter (\<lambda>i. A ! i ! t \<noteq> 0) [Suc t..<n]"
      by (rule filter_cong) (simp_all add: col)
    show ?thesis
      unfolding diag_measure_def crossc_def piv f1 using f2 by simp
  next
    case False
    from elim_coeffs_general [OF y False] co
    have g: "p * ?x + q * ?y \<noteq> 0" "?x \<noteq> 0 \<longrightarrow> \<bar>p * ?x + q * ?y\<bar> < \<bar>?x\<bar>" by simp_all
    have piv: "?A' ! t ! t = p * ?x + q * ?y" using ent [OF t t] by simp
    show ?thesis
      unfolding diag_measure_def piv by (rule pivot_measure_decreases [OF g])
  qed
qed

lemma chain_step_decreases:
  assumes t: "t < n" and sq: "square_mat n A" and k: "t < k" "k < n" and j: "t < j" "j < n"
    and nd: "\<not> A ! t ! t dvd A ! k ! j"
    and col: "A ! k ! t = 0" and row: "A ! t ! j = 0"
    and co: "elim_coeffs (A ! t ! t) (A ! k ! j) = (p, q, r, s)"
  shows "(diag_measure n t (mat_mul (mat_mul (elem_mat n t k 1 1 0 1) A) (elem_mat n t j p r q s)),
          diag_measure n t A)
       \<in> less_than <*lex*> less_than <*lex*> less_than"
proof -
  let ?x = "A ! t ! t" and ?y = "A ! k ! j"
  let ?B = "mat_mul (elem_mat n t k 1 1 0 1) A"
  let ?A' = "mat_mul ?B (elem_mat n t j p r q s)"
  have tk: "t \<noteq> k" and tj: "t \<noteq> j" using k j by simp_all
  have sqB: "square_mat n ?B" by (simp add: square_mat_mul)
  have B: "?B ! t ! b = A ! t ! b + A ! k ! b" if "b < n" for b
    using elem_mul_left_nth [OF sq tk t k(2) t that, of 1 1 0 1] by simp
  have "?A' ! t ! t = p * ?B ! t ! t + q * ?B ! t ! j"
    using elem_mul_right_nth [OF sqB tj t j(2) t t, of p r q s] by simp
  then have piv: "?A' ! t ! t = p * ?x + q * ?y"
    using B [OF t] B [OF j(2)] col row by simp
  have y: "?y \<noteq> 0" using nd by auto
  have n2: "\<not> (?x \<noteq> 0 \<and> ?x dvd ?y)" using nd by simp
  from elim_coeffs_general [OF y n2] co
  have g: "p * ?x + q * ?y \<noteq> 0" "?x \<noteq> 0 \<longrightarrow> \<bar>p * ?x + q * ?y\<bar> < \<bar>?x\<bar>" by simp_all
  show ?thesis
    unfolding diag_measure_def piv by (rule pivot_measure_decreases [OF g])
qed

lemma find_Some_holds: "find P xs = Some x \<Longrightarrow> P x \<and> x \<in> set xs"
  by (induction xs) (auto split: if_splits)

lemma find_indivisible:
  assumes "find (\<lambda>(k, j). \<not> x dvd A ! k ! j) (List.product [Suc t..<n] [Suc t..<n]) = Some (k, j)"
  shows "t < k" and "k < n" and "t < j" and "j < n" and "\<not> x dvd A ! k ! j"
proof -
  note h = find_Some_holds [OF assms]
  from h have "(k, j) \<in> set [Suc t..<n] \<times> set [Suc t..<n]" by (simp only: set_product)
  then show "t < k" "k < n" "t < j" "j < n" by simp_all
  from h show "\<not> x dvd A ! k ! j" by simp
qed

lemma diag_step_decreases:
  assumes t: "t < n" and sq: "square_mat n (fst (snd S))" and st: "diag_step n t S = Some S'"
  shows "(diag_measure n t (fst (snd S')), diag_measure n t (fst (snd S)))
       \<in> less_than <*lex*> less_than <*lex*> less_than"
proof -
  obtain U A V where S: "S = (U, A, V)" by (metis prod_cases3)
  have sqA: "square_mat n A" using sq S by simp
  show ?thesis
  proof (cases "find (\<lambda>k. A ! k ! t \<noteq> 0) [Suc t..<n]")
    case (Some k)
    then have k: "t < k" "k < n" "A ! k ! t \<noteq> 0"
      by (auto simp: find_Some_iff)
    obtain p q r s where co: "elim_coeffs (A ! t ! t) (A ! k ! t) = (p, q, r, s)"
      by (metis prod_cases4)
    have "S' = (mat_mul (elem_mat n t k p q r s) U, mat_mul (elem_mat n t k p q r s) A, V)"
      using st S Some co by (simp add: diag_step_def)
    then show ?thesis
      using row_step_decreases [OF t sqA k co] S by simp
  next
    case None
    then have clear: "\<forall>k\<in>set [Suc t..<n]. A ! k ! t = 0" by (simp add: find_None_iff)
    show ?thesis
    proof (cases "find (\<lambda>j. A ! t ! j \<noteq> 0) [Suc t..<n]")
      case (Some j)
      then have j: "t < j" "j < n" "A ! t ! j \<noteq> 0"
        by (auto simp: find_Some_iff)
      obtain p q r s where co: "elim_coeffs (A ! t ! t) (A ! t ! j) = (p, q, r, s)"
        by (metis prod_cases4)
      have "S' = (U, mat_mul A (elem_mat n t j p r q s), mat_mul V (elem_mat n t j p r q s))"
        using st S None Some co by (simp add: diag_step_def)
      then show ?thesis
        using col_step_decreases [OF t sqA j clear co] S by simp
    next
      case N2: None
      then have rclear: "\<forall>j\<in>set [Suc t..<n]. A ! t ! j = 0" by (simp add: find_None_iff)
      show ?thesis
      proof (cases "find (\<lambda>(k, j). \<not> A ! t ! t dvd A ! k ! j)
                      (List.product [Suc t..<n] [Suc t..<n])")
        case N3: None
        then show ?thesis using st S None N2 by (simp add: diag_step_def)
      next
        case (Some kj)
        obtain k j where kj: "kj = (k, j)" by (cases kj)
        note f = find_indivisible [OF Some [unfolded kj]]
        obtain p q r s where co: "elim_coeffs (A ! t ! t) (A ! k ! j) = (p, q, r, s)"
          by (metis prod_cases4)
        have "S' = (mat_mul (elem_mat n t k 1 1 0 1) U,
                    mat_mul (mat_mul (elem_mat n t k 1 1 0 1) A) (elem_mat n t j p r q s),
                    mat_mul V (elem_mat n t j p r q s))"
          using st S None N2 Some kj co by (simp add: diag_step_def)
        moreover have "A ! k ! t = 0" using clear f(1,2) by simp
        moreover have "A ! t ! j = 0" using rclear f(3,4) by simp
        ultimately show ?thesis
          using chain_step_decreases [OF t sqA f(1,2,3,4,5) _ _ co] S by simp
      qed
    qed
  qed
qed

termination diag_loop
proof (relation "inv_image (less_than <*lex*> (less_than <*lex*> less_than <*lex*> less_than))
    (\<lambda>(n, t, S). (n - t, diag_measure n t (fst (snd S))))")
  show "wf (inv_image (less_than <*lex*> (less_than <*lex*> less_than <*lex*> less_than))
    (\<lambda>(n, t, S). (n - t, diag_measure n t (fst (snd S)))))"
    by (intro wf_inv_image wf_lex_prod wf_less_than)
next
  fix n t :: nat and S S' :: "mat \<times> mat \<times> mat"
  assume a: "\<not> \<not> (t < n \<and> square_mat n (fst (snd S)))" and st: "diag_step n t S = Some S'"
  have "(diag_measure n t (fst (snd S')), diag_measure n t (fst (snd S)))
       \<in> less_than <*lex*> less_than <*lex*> less_than"
    using diag_step_decreases [OF _ _ st] a by blast
  then show "((n, t, S'), (n, t, S)) \<in> inv_image (less_than <*lex*> (less_than <*lex*> less_than <*lex*> less_than))
    (\<lambda>(n, t, S). (n - t, diag_measure n t (fst (snd S))))"
    by simp
next
  fix n t :: nat and S :: "mat \<times> mat \<times> mat"
  assume a: "\<not> \<not> (t < n \<and> square_mat n (fst (snd S)))"
  then show "((n, Suc t, S), (n, t, S)) \<in> inv_image (less_than <*lex*> (less_than <*lex*> less_than <*lex*> less_than))
    (\<lambda>(n, t, S). (n - t, diag_measure n t (fst (snd S))))"
    by auto
qed

declare diag_loop.simps [simp del]

section \<open>The loop of the Smith form diagonalises\<close>

text \<open>
  A step keeps the invariant; when no step is left the row and the column of the pivot are
  clear; so the loop ends with a diagonal matrix.
\<close>

lemma elim_coeffs_det:
  assumes "y \<noteq> 0" and "elim_coeffs x y = (p, q, r, s)"
  shows "\<bar>p * s - q * r\<bar> = 1"
proof (cases "x \<noteq> 0 \<and> x dvd y")
  case True
  then show ?thesis using assms(2) by (auto simp: elim_coeffs_def)
next
  case False
  from elim_coeffs_general [OF assms(1) False] assms(2) show ?thesis by simp
qed

lemma row_op_inv:
  assumes t: "t < n" and sq0: "square_mat n A0" and inv: "diag_inv n A0 t (U, A, V)"
    and k: "t < k" "k < n" and d: "\<bar>p * s - q * r\<bar> = 1"
  shows "diag_inv n A0 t (mat_mul (elem_mat n t k p q r s) U, mat_mul (elem_mat n t k p q r s) A, V)"
proof -
  from inv have eU: "eprod n U" and eV: "eprod n V" and sqA: "square_mat n A"
    and prod: "A = mat_mul (mat_mul U A0) V" and cl: "cleared n t A"
    by (auto simp: diag_inv_def)
  have sqU: "square_mat n U" and sqV: "square_mat n V"
    using eU eV by (simp_all add: eprod_square)
  have sqUA: "square_mat n (mat_mul U A0)" using sqU by (simp add: square_mat_mul square_matD)
  have z: "A ! a ! b = 0" if "a < n" "b < n" "a \<noteq> b" "a < t \<or> b < t" for a b
    using cl that by (simp add: cleared_def)
  have tk: "t \<noteq> k" using k by simp
  let ?E = "elem_mat n t k p q r s"
  have e1: "eprod n (mat_mul ?E U)" using eU tk t k(2) d by (rule eprod_step)
  have "mat_mul ?E A = mat_mul ?E (mat_mul (mat_mul U A0) V)" using prod by simp
  also have "\<dots> = mat_mul (mat_mul ?E (mat_mul U A0)) V"
    by (rule mat_mul_assoc [OF square_elem sqUA sqV, symmetric])
  also have "mat_mul ?E (mat_mul U A0) = mat_mul (mat_mul ?E U) A0"
    by (rule mat_mul_assoc [OF square_elem sqU sq0, symmetric])
  finally have e2: "mat_mul ?E A = mat_mul (mat_mul (mat_mul ?E U) A0) V" .
  have ent: "mat_mul ?E A ! a ! b = (if a = t then p * A ! t ! b + q * A ! k ! b
        else if a = k then r * A ! t ! b + s * A ! k ! b else A ! a ! b)"
    if "a < n" "b < n" for a b
    using elem_mul_left_nth [OF sqA tk t k(2) that] .
  have e3: "cleared n t (mat_mul ?E A)"
    unfolding cleared_def
  proof (intro allI impI)
    fix a b assume ab: "a < n" "b < n" and c: "a \<noteq> b \<and> (a < t \<or> b < t)"
    show "mat_mul ?E A ! a ! b = 0"
    proof (cases "a = t \<or> a = k")
      case True
      then have bt: "b < t" using c k by auto
      then have "A ! t ! b = 0" "A ! k ! b = 0"
        using z [of t b] z [of k b] t k ab by simp_all
      then show ?thesis using ent [OF ab] True by auto
    next
      case False
      then show ?thesis using ent [OF ab] z [OF ab] c by simp
    qed
  qed
  have e4: "square_mat n (mat_mul ?E A)" by (simp add: square_mat_mul)
  show ?thesis
    unfolding diag_inv_def using e1 eV e4 e2 e3 by simp
qed

lemma col_op_inv:
  assumes t: "t < n" and sq0: "square_mat n A0" and inv: "diag_inv n A0 t (U, A, V)"
    and j: "t < j" "j < n" and d: "\<bar>p * s - q * r\<bar> = 1"
  shows "diag_inv n A0 t (U, mat_mul A (elem_mat n t j p r q s), mat_mul V (elem_mat n t j p r q s))"
proof -
  from inv have eU: "eprod n U" and eV: "eprod n V" and sqA: "square_mat n A"
    and prod: "A = mat_mul (mat_mul U A0) V" and cl: "cleared n t A"
    by (auto simp: diag_inv_def)
  have sqU: "square_mat n U" and sqV: "square_mat n V"
    using eU eV by (simp_all add: eprod_square)
  have sqUA: "square_mat n (mat_mul U A0)" using sqU by (simp add: square_mat_mul square_matD)
  have z: "A ! a ! b = 0" if "a < n" "b < n" "a \<noteq> b" "a < t \<or> b < t" for a b
    using cl that by (simp add: cleared_def)
  have tj: "t \<noteq> j" using j by simp
  let ?F = "elem_mat n t j p r q s"
  have d': "\<bar>p * s - r * q\<bar> = 1" using d by (simp add: mult.commute)
  have "eprod n ?F" using tj t j(2) d' by (rule eprod_elem)
  with eV have e1: "eprod n (mat_mul V ?F)" by (rule eprod_mul)
  have "mat_mul A ?F = mat_mul (mat_mul (mat_mul U A0) V) ?F" using prod by simp
  also have "\<dots> = mat_mul (mat_mul U A0) (mat_mul V ?F)"
    by (rule mat_mul_assoc [OF sqUA sqV square_elem])
  finally have e2: "mat_mul A ?F = mat_mul (mat_mul U A0) (mat_mul V ?F)" .
  have ent: "mat_mul A ?F ! a ! b = (if b = t then p * A ! a ! t + q * A ! a ! j
        else if b = j then r * A ! a ! t + s * A ! a ! j else A ! a ! b)"
    if "a < n" "b < n" for a b
    using elem_mul_right_nth [OF sqA tj t j(2) that] .
  have e3: "cleared n t (mat_mul A ?F)"
    unfolding cleared_def
  proof (intro allI impI)
    fix a b assume ab: "a < n" "b < n" and c: "a \<noteq> b \<and> (a < t \<or> b < t)"
    show "mat_mul A ?F ! a ! b = 0"
    proof (cases "b = t \<or> b = j")
      case True
      then have at: "a < t" using c j by auto
      then have "A ! a ! t = 0" "A ! a ! j = 0"
        using z [of a t] z [of a j] t j ab by simp_all
      then show ?thesis using ent [OF ab] True by auto
    next
      case False
      then show ?thesis using ent [OF ab] z [OF ab] c by simp
    qed
  qed
  have e4: "square_mat n (mat_mul A ?F)" using sqA by (simp add: square_mat_mul square_matD)
  show ?thesis
    unfolding diag_inv_def using eU e1 e4 e2 e3 by simp
qed

lemma diag_step_inv:
  assumes t: "t < n" and sq0: "square_mat n A0" and inv: "diag_inv n A0 t S"
    and st: "diag_step n t S = Some S'"
  shows "diag_inv n A0 t S'"
proof -
  obtain U A V where S: "S = (U, A, V)" by (metis prod_cases3)
  note inv' = inv [unfolded S]
  show ?thesis
  proof (cases "find (\<lambda>k. A ! k ! t \<noteq> 0) [Suc t..<n]")
    case (Some k)
    then have k: "t < k" "k < n" "A ! k ! t \<noteq> 0"
      by (auto simp: find_Some_iff)
    obtain p q r s where co: "elim_coeffs (A ! t ! t) (A ! k ! t) = (p, q, r, s)"
      by (metis prod_cases4)
    have S': "S' = (mat_mul (elem_mat n t k p q r s) U, mat_mul (elem_mat n t k p q r s) A, V)"
      using st S Some co by (simp add: diag_step_def)
    have d: "\<bar>p * s - q * r\<bar> = 1" using k(3) co by (rule elim_coeffs_det)
    show ?thesis unfolding S' by (rule row_op_inv [OF t sq0 inv' k(1,2) d])
  next
    case None
    show ?thesis
    proof (cases "find (\<lambda>j. A ! t ! j \<noteq> 0) [Suc t..<n]")
      case (Some j)
      then have j: "t < j" "j < n" "A ! t ! j \<noteq> 0"
        by (auto simp: find_Some_iff)
      obtain p q r s where co: "elim_coeffs (A ! t ! t) (A ! t ! j) = (p, q, r, s)"
        by (metis prod_cases4)
      have S': "S' = (U, mat_mul A (elem_mat n t j p r q s), mat_mul V (elem_mat n t j p r q s))"
        using st S None Some co by (simp add: diag_step_def)
      have d: "\<bar>p * s - q * r\<bar> = 1" using j(3) co by (rule elim_coeffs_det)
      show ?thesis unfolding S' by (rule col_op_inv [OF t sq0 inv' j(1,2) d])
    next
      case N2: None
      show ?thesis
      proof (cases "find (\<lambda>(k, j). \<not> A ! t ! t dvd A ! k ! j)
                      (List.product [Suc t..<n] [Suc t..<n])")
        case N3: None
        then show ?thesis using st S None N2 by (simp add: diag_step_def)
      next
        case (Some kj)
        obtain k j where kj: "kj = (k, j)" by (cases kj)
        note f = find_indivisible [OF Some [unfolded kj]]
        obtain p q r s where co: "elim_coeffs (A ! t ! t) (A ! k ! j) = (p, q, r, s)"
          by (metis prod_cases4)
        let ?E = "elem_mat n t k 1 1 0 1"
        have S': "S' = (mat_mul ?E U, mat_mul (mat_mul ?E A) (elem_mat n t j p r q s),
                        mat_mul V (elem_mat n t j p r q s))"
          using st S None N2 Some kj co by (simp add: diag_step_def)
        have y: "A ! k ! j \<noteq> 0" using f(5) by auto
        have d: "\<bar>p * s - q * r\<bar> = 1" using y co by (rule elim_coeffs_det)
        have d1: "\<bar>1 * 1 - 1 * (0::int)\<bar> = 1" by simp
        have "diag_inv n A0 t (mat_mul ?E U, mat_mul ?E A, V)"
          by (rule row_op_inv [OF t sq0 inv' f(1,2) d1])
        then show ?thesis unfolding S' by (rule col_op_inv [OF t sq0 _ f(3,4) d])
      qed
    qed
  qed
qed

lemma diag_step_none_inv:
  assumes t: "t < n" and inv: "diag_inv n A0 t S" and st: "diag_step n t S = None"
  shows "diag_inv n A0 (Suc t) S"
proof -
  obtain U A V where S: "S = (U, A, V)" by (metis prod_cases3)
  from inv S have cl: "cleared n t A" by (auto simp: diag_inv_def)
  have n1: "find (\<lambda>k. A ! k ! t \<noteq> 0) [Suc t..<n] = None"
    using st S by (auto simp: diag_step_def split: option.splits prod.splits)
  then have n2: "find (\<lambda>j. A ! t ! j \<noteq> 0) [Suc t..<n] = None"
    using st S by (auto simp: diag_step_def split: option.splits prod.splits)
  have col: "A ! a ! t = 0" if "t < a" "a < n" for a
    using n1 that by (simp add: find_None_iff)
  have row: "A ! t ! b = 0" if "t < b" "b < n" for b
    using n2 that by (simp add: find_None_iff)
  have "cleared n (Suc t) A"
    unfolding cleared_def
  proof (intro allI impI)
    fix a b assume ab: "a < n" "b < n" and c: "a \<noteq> b \<and> (a < Suc t \<or> b < Suc t)"
    show "A ! a ! b = 0"
    proof (cases "a < t \<or> b < t")
      case True
      then show ?thesis using cl ab c by (simp add: cleared_def)
    next
      case False
      then have "(a = t \<and> t < b) \<or> (b = t \<and> t < a)" using c by auto
      then show ?thesis using row col ab by auto
    qed
  qed
  then show ?thesis using inv S by (auto simp: diag_inv_def)
qed

lemma diag_loop_inv:
  "square_mat n A0 \<Longrightarrow> diag_inv n A0 t S \<Longrightarrow> t \<le> n \<Longrightarrow> diag_inv n A0 n (diag_loop n t S)"
proof (induction n t S rule: diag_loop.induct)
  case (1 n t S)
  have sqA: "square_mat n (fst (snd S))"
    using "1.prems"(2) by (auto simp: diag_inv_def split: prod.splits)
  show ?case
  proof (cases "t < n")
    case False
    then have "t = n" using "1.prems"(3) by simp
    then show ?thesis using "1.prems"(2) by (simp add: diag_loop.simps [of n n S])
  next
    case True
    then have c: "\<not> \<not> (t < n \<and> square_mat n (fst (snd S)))" using sqA by simp
    show ?thesis
    proof (cases "diag_step n t S")
      case None
      have "diag_inv n A0 (Suc t) S" using True "1.prems"(2) None by (rule diag_step_none_inv)
      from "1.IH"(1) [OF c None "1.prems"(1) this] True
      have "diag_inv n A0 n (diag_loop n (Suc t) S)" by simp
      then show ?thesis using True sqA None by (simp add: diag_loop.simps [of n t S])
    next
      case (Some S')
      have "diag_inv n A0 t S'" using True "1.prems"(1,2) Some by (rule diag_step_inv)
      from "1.IH"(2) [OF c Some "1.prems"(1) this "1.prems"(3)]
      show ?thesis using True sqA Some by (simp add: diag_loop.simps [of n t S])
    qed
  qed
qed

lemma diagonalise_correct:
  assumes sq: "square_mat n A" and sm: "diagonalise A = (D, U, V)"
  shows "eprod n U" and "eprod n V" and "square_mat n D"
    and "D = mat_mul (mat_mul U A) V"
    and "\<And>a b. a < n \<Longrightarrow> b < n \<Longrightarrow> a \<noteq> b \<Longrightarrow> D ! a ! b = 0"
proof -
  have len: "length A = n" using sq by (simp add: square_matD)
  let ?S0 = "(identity_matrix n, A, identity_matrix n)"
  have "A = mat_mul (mat_mul (identity_matrix n) A) (identity_matrix n)"
    using sq by (simp add: mat_mul_identity_left mat_mul_identity_right)
  then have inv0: "diag_inv n A 0 ?S0"
    using sq by (simp add: diag_inv_def eprod_id cleared_def)
  have "diag_inv n A n (diag_loop n 0 ?S0)"
    by (rule diag_loop_inv [OF sq inv0]) simp
  moreover have "diag_loop n 0 ?S0 = (U, D, V)"
    using sm len by (auto simp: diagonalise_def split: prod.splits)
  ultimately have i: "eprod n U \<and> eprod n V \<and> square_mat n D \<and> D = mat_mul (mat_mul U A) V
      \<and> cleared n n D"
    by (auto simp: diag_inv_def)
  show "eprod n U" "eprod n V" "square_mat n D" "D = mat_mul (mat_mul U A) V"
    using i by blast+
  have "cleared n n D" using i by blast
  then show "\<And>a b. a < n \<Longrightarrow> b < n \<Longrightarrow> a \<noteq> b \<Longrightarrow> D ! a ! b = 0"
    by (simp add: cleared_def)
qed

section \<open>The determinant of a product\<close>

text \<open>
  Every square matrix lies between two products of elementary matrices and a diagonal
  matrix, and for such a product the determinant is known.
\<close>

lemma square_mat_mul2 [simp]:
  "square_mat n A \<Longrightarrow> square_mat n (mat_mul A B)"
  by (simp add: square_mat_mul square_matD)

lemma diagonal_of_entries:
  assumes "square_mat n D" and "\<And>a b. a < n \<Longrightarrow> b < n \<Longrightarrow> a \<noteq> b \<Longrightarrow> D ! a ! b = 0"
  shows "D = diagonal_matrix (map (\<lambda>i. D ! i ! i) [0..<n])"
proof (rule mat_eqI [OF assms(1)])
  show "square_mat n (diagonal_matrix (map (\<lambda>i. D ! i ! i) [0..<n]))"
    by (simp add: diagonal_matrix_def)
  fix i j assume "i < n" "j < n"
  then show "D ! i ! j = diagonal_matrix (map (\<lambda>i. D ! i ! i) [0..<n]) ! i ! j"
    using assms(2) by (simp add: diagonal_matrix_def)
qed

text \<open>Every square matrix is a product P * D * Q with P, Q products of elementary matrices.\<close>

lemma decomposition:
  assumes sq: "square_mat n A"
  shows "\<exists>P ds Q. eprod n P \<and> eprod n Q \<and> length ds = n
           \<and> A = mat_mul (mat_mul P (diagonal_matrix ds)) Q"
proof -
  obtain D U V where sm: "diagonalise A = (D, U, V)" by (metis prod_cases3)
  note c = diagonalise_correct [OF sq sm]
  from eprod_inverse [OF c(1)] obtain Ui where Ui: "eprod n Ui"
    "mat_mul Ui U = identity_matrix n" by blast
  from eprod_inverse [OF c(2)] obtain Vi where Vi: "eprod n Vi"
    "mat_mul V Vi = identity_matrix n" by blast
  have s: "square_mat n U" "square_mat n V" "square_mat n Ui" "square_mat n Vi"
    using c(1,2) Ui(1) Vi(1) by (simp_all add: eprod_square)
  note a = mat_mul_assoc [where n = n]
  define ds where "ds = map (\<lambda>i. D ! i ! i) [0..<n]"
  have Dd: "D = diagonal_matrix ds" unfolding ds_def by (rule diagonal_of_entries [OF c(3) c(5)])
  have "mat_mul (mat_mul Ui D) Vi = mat_mul (mat_mul Ui (mat_mul (mat_mul U A) V)) Vi"
    using c(4) by simp
  also have "\<dots> = mat_mul (mat_mul (mat_mul Ui U) A) (mat_mul V Vi)"
    using s sq by (simp add: a)
  also have "\<dots> = A"
    using sq by (simp add: Ui(2) Vi(2) mat_mul_identity_left mat_mul_identity_right)
  finally have "A = mat_mul (mat_mul Ui (diagonal_matrix ds)) Vi" using Dd by simp
  moreover have "length ds = n" by (simp add: ds_def)
  ultimately show ?thesis using Ui(1) Vi(1) by blast
qed

lemma det_mul:
  assumes sqA: "square_mat n A" and sqB: "square_mat n B"
  shows "det (mat_mul A B) = det A * det B"
proof -
  from decomposition [OF sqA] obtain P ds Q
    where P: "eprod n P" and Q: "eprod n Q" and ds: "length ds = n"
      and A: "A = mat_mul (mat_mul P (diagonal_matrix ds)) Q" by blast
  have s: "square_mat n P" "square_mat n Q" "square_mat n (diagonal_matrix ds)"
    using P Q ds by (simp_all add: eprod_square diagonal_matrix_def)
  note a = mat_mul_assoc [where n = n]
  have key: "det (mat_mul A M) = det P * prod_list ds * det Q * det M" if M: "square_mat n M" for M
  proof -
    have sqR: "square_mat n (mat_mul (diagonal_matrix ds) (mat_mul Q M))" using s by simp
    have "mat_mul A M = mat_mul P (mat_mul (diagonal_matrix ds) (mat_mul Q M))"
      unfolding A using s M by (simp add: a)
    then have "det (mat_mul A M) = det P * det (mat_mul (diagonal_matrix ds) (mat_mul Q M))"
      using eprod_det_mul [OF P sqR] by simp
    also have "det (mat_mul (diagonal_matrix ds) (mat_mul Q M)) = prod_list ds * det (mat_mul Q M)"
      by (rule det_diagonal_mul) (use s ds in simp_all)
    also have "det (mat_mul Q M) = det Q * det M" by (rule eprod_det_mul [OF Q M])
    finally show ?thesis by simp
  qed
  have "det A = det (mat_mul A (identity_matrix n))" using sqA by (simp add: mat_mul_identity_right)
  also have "\<dots> = det P * prod_list ds * det Q"
    using key [of "identity_matrix n"] by (simp add: det_identity)
  finally show ?thesis using key [OF sqB] by simp
qed

lemma prod_list_unit:
  fixes ds :: "int list"
  assumes "\<bar>prod_list ds\<bar> = 1"
  shows "\<forall>d\<in>set ds. \<bar>d\<bar> = 1"
  using assms
proof (induction ds)
  case Nil
  then show ?case by simp
next
  case (Cons x xs)
  then have m: "\<bar>x\<bar> * \<bar>prod_list xs\<bar> = 1" by (simp add: abs_mult)
  then have "(\<bar>x\<bar> = 1 \<and> \<bar>prod_list xs\<bar> = 1) \<or> (\<bar>x\<bar> = - 1 \<and> \<bar>prod_list xs\<bar> = - 1)"
    by (simp only: zmult_eq_1_iff)
  then have "\<bar>x\<bar> = 1 \<and> \<bar>prod_list xs\<bar> = 1" by linarith
  then show ?case using Cons.IH by simp
qed

section \<open>The inverse of a unimodular matrix\<close>

text \<open>
  A matrix of determinant 1 or -1 has an inverse with integer entries, and the model finds
  it.
\<close>

lemma mat_inverse_unimodular:
  assumes sq: "square_mat n M" and dt: "\<bar>det M\<bar> = 1"
  shows "\<exists>Y. mat_inverse M = Inr Y \<and> square_mat n Y
           \<and> mat_mul Y M = identity_matrix n \<and> mat_mul M Y = identity_matrix n"
proof -
  obtain D U V where sm: "diagonalise M = (D, U, V)" by (metis prod_cases3)
  note c = diagonalise_correct [OF sq sm]
  from eprod_inverse [OF c(1)] obtain Ui where Ui: "eprod n Ui"
    "mat_mul Ui U = identity_matrix n" "mat_mul U Ui = identity_matrix n" by blast
  from eprod_inverse [OF c(2)] obtain Vi where Vi: "eprod n Vi"
    "mat_mul Vi V = identity_matrix n" "mat_mul V Vi = identity_matrix n" by blast
  have s: "square_mat n U" "square_mat n V" "square_mat n Ui" "square_mat n Vi" "square_mat n D"
    using c(1,2,3) Ui(1) Vi(1) by (simp_all add: eprod_square)
  have len: "length M = n" using sq by (simp add: square_matD)
  note a = mat_mul_assoc [where n = n]
  note il = mat_mul_identity_left [where n = n]
  note ir = mat_mul_identity_right [where n = n]
  define ds where "ds = map (\<lambda>i. D ! i ! i) [0..<n]"
  have Dd: "D = diagonal_matrix ds" unfolding ds_def by (rule diagonal_of_entries [OF c(3) c(5)])
  have "det D = det (mat_mul U M) * det V" unfolding c(4) using s sq by (simp add: det_mul [where n = n])
  also have "det (mat_mul U M) = det U * det M" by (rule eprod_det_mul [OF c(1) sq])
  finally have "\<bar>det D\<bar> = \<bar>det U\<bar> * \<bar>det M\<bar> * \<bar>det V\<bar>" by (simp add: abs_mult)
  then have "\<bar>det D\<bar> = 1" using dt eprod_det [OF c(1)] eprod_det [OF c(2)] by simp
  then have "\<bar>prod_list ds\<bar> = 1" using Dd by (simp add: det_diagonal)
  then have units: "\<forall>d\<in>set ds. \<bar>d\<bar> = 1" by (rule prod_list_unit)
  have u: "\<bar>D ! i ! i\<bar> = 1" if "i < n" for i
    using units that by (simp add: ds_def)
  have all: "list_all (\<lambda>i. \<bar>D ! i ! i\<bar> = 1) [0..<length M]"
    using u len by (simp add: list_all_iff)
  define Y where "Y = mat_mul (mat_mul V D) U"
  have res: "mat_inverse M = Inr Y" using sm all by (simp add: mat_inverse_def Y_def)
  have sqY: "square_mat n Y" using s by (simp add: Y_def)
  have DD: "mat_mul D D = identity_matrix n"
  proof (rule mat_eqI [of n])
    show "square_mat n (mat_mul D D)" using s by simp
    show "square_mat n (identity_matrix n)" by simp
    fix i j assume ij: "i < n" "j < n"
    have "mat_mul D D ! i ! j = (\<Sum>k<n. D ! i ! k * D ! k ! j)"
      using ij s by (simp add: mat_mul_nth square_matD)
    also have "\<dots> = (\<Sum>k<n. if k = i then D ! i ! i * D ! i ! j else 0)"
      by (rule sum.cong) (use ij c(5) in auto)
    also have "\<dots> = D ! i ! i * D ! i ! j" using ij by simp
    also have "\<dots> = (if i = j then 1 else 0)"
    proof (cases "i = j")
      case True
      have "\<bar>D ! i ! i * D ! i ! i\<bar> = 1" using u [OF ij(1)] by (simp add: abs_mult)
      moreover have "0 \<le> D ! i ! i * D ! i ! i" by simp
      ultimately show ?thesis using True by simp
    next
      case False
      then show ?thesis using c(5) ij by simp
    qed
    finally show "mat_mul D D ! i ! j = identity_matrix n ! i ! j"
      using ij by (simp add: identity_matrix_def)
  qed
  have M: "M = mat_mul (mat_mul Ui D) Vi"
  proof -
    have "mat_mul (mat_mul Ui D) Vi = mat_mul (mat_mul (mat_mul Ui U) M) (mat_mul V Vi)"
      unfolding c(4) using s sq by (simp add: a)
    then show ?thesis using sq by (simp add: Ui(2) Vi(3) il ir)
  qed
  have "mat_mul Y M = mat_mul V (mat_mul D (mat_mul (mat_mul U Ui) (mat_mul D Vi)))"
    unfolding Y_def using s by (subst M) (simp add: a)
  also have "\<dots> = mat_mul V (mat_mul (mat_mul D D) Vi)"
    using s by (simp add: Ui(3) il a)
  also have "\<dots> = identity_matrix n" using s by (simp add: DD il Vi(3))
  finally have l: "mat_mul Y M = identity_matrix n" .
  have "mat_mul M Y = mat_mul Ui (mat_mul D (mat_mul (mat_mul Vi V) (mat_mul D U)))"
    unfolding Y_def using s by (subst M) (simp add: a)
  also have "\<dots> = mat_mul Ui (mat_mul (mat_mul D D) U)"
    using s by (simp add: Vi(2) il a)
  also have "\<dots> = identity_matrix n" using s by (simp add: DD il Ui(2))
  finally have r: "mat_mul M Y = identity_matrix n" .
  show ?thesis using res sqY l r by blast
qed

section \<open>The depth of the recursion\<close>

text \<open>
  The problem handed to the recursive call has one row less; with a bound on the nested
  calls the function returns exactly when the bound is at least the number of rows.
\<close>

lemma sl_factors_length: "sl_factors A = (U, V, a) \<Longrightarrow> length a = length A"
  by (auto simp: sl_factors_def Let_def split: prod.splits)

lemma square_set_entry: "square_mat n A \<Longrightarrow> square_mat n (set_entry A i j v)"
proof -
  assume sq: "square_mat n A"
  show ?thesis
  proof (cases "i < n")
    case True
    then have "length ((A ! i)[j := v]) = n" using sq by (simp add: square_matD)
    with sq show ?thesis unfolding set_entry_def by (rule square_update)
  next
    case False
    then have "A[i := (A ! i)[j := v]] = A" using sq by (simp add: list_update_beyond square_matD)
    then show ?thesis using sq by (simp add: set_entry_def)
  qed
qed

lemma square_diagonal [simp]: "square_mat (length ds) (diagonal_matrix ds)"
  by (simp add: diagonal_matrix_def)

lemma square_sl_reduced: "length a = n \<Longrightarrow> square_mat (n - 1) (sl_reduced a)"
proof -
  assume "length a = n"
  then have "square_mat (n - 1) (diagonal_matrix (tl a))"
    using square_diagonal [of "tl a"] by simp
  then show ?thesis by (simp add: sl_reduced_def Let_def square_set_entry)
qed

lemma lift_for_SL_fuel_depth:
  "square_mat n A \<Longrightarrow>
     lift_for_SL_fuel k A N = (if max 1 n \<le> k then Some (lift_for_SL A N) else None)"
proof (induction k arbitrary: A n)
  case 0
  then show ?case by simp
next
  case (Suc k)
  have len: "length A = n" using Suc.prems by (simp add: square_matD)
  show ?case
  proof (cases "n = 1 \<or> n = 0")
    case True
    then show ?thesis using Suc.prems len
      by (auto simp: lift_for_SL.simps [of A N])
  next
    case False
    then have n2: "2 \<le> n" by simp
    obtain U V a where f: "sl_factors A = (U, V, a)" by (metis prod_cases3)
    have la: "length a = n" using sl_factors_length [OF f] len by simp
    have sq': "square_mat (n - 1) (sl_reduced a)" using la by (rule square_sl_reduced)
    have IH: "lift_for_SL_fuel k (sl_reduced a) N
        = (if max 1 (n - 1) \<le> k then Some (lift_for_SL (sl_reduced a) N) else None)"
      by (rule Suc.IH [OF sq'])
    have m: "max 1 (n - 1) \<le> k \<longleftrightarrow> max 1 n \<le> Suc k" using n2 by auto
    show ?thesis
      using Suc.prems len False f IH m
      by (simp add: lift_for_SL.simps [of A N])
  qed
qed

section \<open>Congruence of matrices, and the special matrices of the lift\<close>

text \<open>
  Congruence modulo N is kept by products. The matrices W and X of lines 225 to 231 are
  elementary matrices; the block matrix of line 242 has the determinant of its block.
\<close>

lemma mat_congI:
  "(\<And>i j. i < n \<Longrightarrow> j < n \<Longrightarrow> N dvd (A ! i ! j - B ! i ! j)) \<Longrightarrow> mat_cong N n A B"
  by (simp add: mat_cong_def)

lemma mat_congD: "mat_cong N n A B \<Longrightarrow> i < n \<Longrightarrow> j < n \<Longrightarrow> N dvd (A ! i ! j - B ! i ! j)"
  by (simp add: mat_cong_def)

lemma mat_cong_mul_left:
  assumes c: "mat_cong N n A B" and sq: "square_mat n P" "square_mat n A" "square_mat n B"
  shows "mat_cong N n (mat_mul P A) (mat_mul P B)"
proof (rule mat_congI)
  fix i j assume ij: "i < n" "j < n"
  have len: "length P = n" using sq(1) by (simp add: square_matD)
  have "mat_mul P A ! i ! j - mat_mul P B ! i ! j
      = (\<Sum>k<n. P ! i ! k * (A ! k ! j - B ! k ! j))"
    using ij len by (simp add: mat_mul_nth sum_subtractf right_diff_distrib)
  moreover have "N dvd (\<Sum>k<n. P ! i ! k * (A ! k ! j - B ! k ! j))"
    by (rule dvd_sum) (use c ij in \<open>simp add: mat_cong_def\<close>)
  ultimately show "N dvd (mat_mul P A ! i ! j - mat_mul P B ! i ! j)" by simp
qed

lemma mat_cong_mul_right:
  assumes c: "mat_cong N n A B" and sq: "square_mat n Q" "square_mat n A" "square_mat n B"
  shows "mat_cong N n (mat_mul A Q) (mat_mul B Q)"
proof (rule mat_congI)
  fix i j assume ij: "i < n" "j < n"
  have len: "length A = n" "length B = n" using sq by (simp_all add: square_matD)
  have "mat_mul A Q ! i ! j - mat_mul B Q ! i ! j
      = (\<Sum>k<n. (A ! i ! k - B ! i ! k) * Q ! k ! j)"
    using ij len by (simp add: mat_mul_nth sum_subtractf left_diff_distrib)
  moreover have "N dvd (\<Sum>k<n. (A ! i ! k - B ! i ! k) * Q ! k ! j)"
    by (rule dvd_sum) (use c ij in \<open>simp add: mat_cong_def\<close>)
  ultimately show "N dvd (mat_mul A Q ! i ! j - mat_mul B Q ! i ! j)" by simp
qed

lemma set_entry_nth:
  assumes "square_mat n A" and "i < n" and "j < n" and "a < n" and "b < n"
  shows "set_entry A i j v ! a ! b = (if a = i \<and> b = j then v else A ! a ! b)"
  using assms by (auto simp: set_entry_def square_matD nth_list_update)

lemma identity_nth: "a < n \<Longrightarrow> b < n \<Longrightarrow> identity_matrix n ! a ! b = (if a = b then 1 else 0)"
  by (simp add: identity_matrix_def)

lemma diagonal_nth:
  "a < length ds \<Longrightarrow> b < length ds \<Longrightarrow> diagonal_matrix ds ! a ! b = (if a = b then ds ! a else 0)"
  by (simp add: diagonal_matrix_def)

lemma sl_W_elem:
  assumes n: "2 \<le> n"
  shows "set_entry (set_entry (set_entry (identity_matrix n) 0 0 b) 1 0 (b - 1)) 0 1 1
       = elem_mat n 0 1 b 1 (b - 1) 1"
proof (rule mat_eqI [of n])
  show "square_mat n (set_entry (set_entry (set_entry (identity_matrix n) 0 0 b) 1 0 (b - 1)) 0 1 1)"
    by (simp add: square_set_entry)
  show "square_mat n (elem_mat n 0 1 b 1 (b - 1) 1)" by simp
  fix i j assume ij: "i < n" "j < n"
  have z: "0 < n" "1 < n" using n by simp_all
  show "set_entry (set_entry (set_entry (identity_matrix n) 0 0 b) 1 0 (b - 1)) 0 1 1 ! i ! j
      = elem_mat n 0 1 b 1 (b - 1) 1 ! i ! j"
    using ij z
    by (simp add: set_entry_nth [where n = n] square_set_entry identity_nth elem_nth)
qed

lemma sl_X_elem:
  assumes n: "2 \<le> n"
  shows "set_entry (identity_matrix n) 0 1 x = elem_mat n 0 1 1 x 0 1"
proof (rule mat_eqI [of n])
  show "square_mat n (set_entry (identity_matrix n) 0 1 x)" by (simp add: square_set_entry)
  show "square_mat n (elem_mat n 0 1 1 x 0 1)" by simp
  fix i j assume ij: "i < n" "j < n"
  have z: "0 < n" "1 < n" using n by simp_all
  show "set_entry (identity_matrix n) 0 1 x ! i ! j = elem_mat n 0 1 1 x 0 1 ! i ! j"
    using ij z
    by (simp add: set_entry_nth [where n = n] identity_nth elem_nth)
qed

lemma square_block_diagonal:
  "length A = k \<Longrightarrow> length B = m \<Longrightarrow> square_mat (k + m) (block_diagonal_matrix A B)"
  by (simp add: block_diagonal_matrix_def)

lemma block_one_nth:
  assumes "length C = m" and "i < Suc m" and "j < Suc m"
  shows "block_diagonal_matrix (identity_matrix 1) C ! i ! j
       = (if i = 0 \<and> j = 0 then 1 else if 0 < i \<and> 0 < j then C ! (i - 1) ! (j - 1) else 0)"
  using assms by (auto simp: block_diagonal_matrix_def identity_nth)

lemma det_block_one:
  assumes sq: "square_mat m C"
  shows "det (block_diagonal_matrix (identity_matrix 1) C) = det C"
proof -
  let ?B = "block_diagonal_matrix (identity_matrix 1) C"
  have len: "length C = m" using sq by (simp add: square_matD)
  have sqB: "square_mat (Suc m) ?B"
    using square_block_diagonal [of "identity_matrix 1" 1 C m] len by simp
  have minor: "map tl (del_row 0 ?B) = C"
  proof (rule mat_eqI [of m])
    show "square_mat m (map tl (del_row 0 ?B))" using sqB by (simp add: square_minor)
    show "square_mat m C" by (rule sq)
    fix a b assume ab: "a < m" "b < m"
    have "map tl (del_row 0 ?B) ! a ! b = ?B ! Suc a ! Suc b"
      using minor_entry [OF sqB _ ab, of 0] by simp
    also have "\<dots> = C ! a ! b" using block_one_nth [OF len, of "Suc a" "Suc b"] ab by simp
    finally show "map tl (del_row 0 ?B) ! a ! b = C ! a ! b" .
  qed
  have "det ?B = (\<Sum>i<Suc m. (- 1) ^ i * (?B ! i ! 0) * det (map tl (del_row i ?B)))"
    using sqB by (rule det_Suc)
  also have "\<dots> = (\<Sum>i<Suc m. if i = 0 then det C else 0)"
  proof (rule sum.cong)
    fix i assume "i \<in> {..<Suc m}"
    then have i: "i < Suc m" by simp
    show "(- 1) ^ i * (?B ! i ! 0) * det (map tl (del_row i ?B)) = (if i = 0 then det C else 0)"
      using block_one_nth [OF len i, of 0] minor by simp
  qed simp
  also have "\<dots> = det C" by simp
  finally show ?thesis .
qed

section \<open>The assembled matrix modulo N\<close>

text \<open>
  The reduced problem of lines 238 and 239 is a diagonal matrix with the determinant of D.
  Entry by entry, the matrix Cpp of lines 242 and 243 is congruent to W * D * X as soon as
  the first diagonal entry times b is 1 modulo N.
\<close>

lemma sl_reduced_nth:
  assumes n: "2 \<le> n" and la: "length a = n" and ij: "i < n - 1" "j < n - 1"
  shows "sl_reduced a ! i ! j
       = (if i = j then (if i = 0 then a ! 1 * a ! 0 else a ! Suc i) else 0)"
proof -
  have lt: "length (tl a) = n - 1" using la by simp
  have sq: "square_mat (n - 1) (diagonal_matrix (tl a))"
    using square_diagonal [of "tl a"] lt by simp
  have z: "0 < n - 1" using n by simp
  have t: "tl a ! k = a ! Suc k" if "k < n - 1" for k
    using that la by (simp add: nth_tl)
  show ?thesis
    using ij z lt
    by (simp add: sl_reduced_def Let_def set_entry_nth [OF sq] diagonal_nth t)
qed

lemma sl_reduced_diagonal:
  assumes n: "2 \<le> n" and la: "length a = n"
  shows "sl_reduced a = diagonal_matrix ((a ! 1 * a ! 0) # drop 2 a)"
proof (rule mat_eqI [of "n - 1"])
  show "square_mat (n - 1) (sl_reduced a)" using la by (rule square_sl_reduced)
  have l: "length ((a ! 1 * a ! 0) # drop 2 a) = n - 1" using n la by simp
  show "square_mat (n - 1) (diagonal_matrix ((a ! 1 * a ! 0) # drop 2 a))"
    using square_diagonal [of "(a ! 1 * a ! 0) # drop 2 a"] l by simp
  fix i j assume ij: "i < n - 1" "j < n - 1"
  have "diagonal_matrix ((a ! 1 * a ! 0) # drop 2 a) ! i ! j
      = (if i = j then ((a ! 1 * a ! 0) # drop 2 a) ! i else 0)"
    using ij l by (simp add: diagonal_nth)
  also have "\<dots> = (if i = j then (if i = 0 then a ! 1 * a ! 0 else a ! Suc i) else 0)"
    using ij la by (cases i) simp_all
  finally show "sl_reduced a ! i ! j = diagonal_matrix ((a ! 1 * a ! 0) # drop 2 a) ! i ! j"
    using sl_reduced_nth [OF n la ij] by simp
qed

lemma prod_list_two:
  fixes a :: "int list"
  assumes "2 \<le> length a"
  shows "prod_list a = a ! 0 * a ! 1 * prod_list (drop 2 a)"
    and "prod_list (tl a) = a ! 1 * prod_list (drop 2 a)"
proof -
  obtain x y r where a: "a = x # y # r"
    using assms by (cases a; cases "tl a") auto
  show "prod_list a = a ! 0 * a ! 1 * prod_list (drop 2 a)" by (simp add: a)
  show "prod_list (tl a) = a ! 1 * prod_list (drop 2 a)" by (simp add: a)
qed

lemma det_sl_reduced:
  assumes n: "2 \<le> n" and la: "length a = n"
  shows "det (sl_reduced a) = prod_list a"
  using prod_list_two(1) [of a] n la
  by (simp add: sl_reduced_diagonal [OF n la] det_diagonal)

lemma sl_WDX_nth:
  assumes n: "2 \<le> n" and la: "length a = n" and ij: "i < n" "j < n"
  shows "mat_mul (mat_mul (elem_mat n 0 1 b 1 (b - 1) 1) (diagonal_matrix a))
           (elem_mat n 0 1 1 x 0 1) ! i ! j
       = (if i = 0 then (if j = 0 then b * a ! 0 else if j = 1 then x * (b * a ! 0) + a ! 1 else 0)
          else if i = 1 then
            (if j = 0 then (b - 1) * a ! 0 else if j = 1 then x * ((b - 1) * a ! 0) + a ! 1 else 0)
          else (if i = j then a ! i else 0))"
proof -
  let ?D = "diagonal_matrix a"
  let ?WD = "mat_mul (elem_mat n 0 1 b 1 (b - 1) 1) ?D"
  have z: "(0::nat) \<noteq> 1" "0 < n" "1 < n" using n by simp_all
  have sqD: "square_mat n ?D" using square_diagonal [of a] la by simp
  have sqWD: "square_mat n ?WD" by simp
  have D: "?D ! k ! l = (if k = l then a ! k else 0)" if "k < n" "l < n" for k l
    using that la by (simp add: diagonal_nth)
  have WD: "?WD ! k ! l = (if k = 0 then b * ?D ! 0 ! l + 1 * ?D ! 1 ! l
          else if k = 1 then (b - 1) * ?D ! 0 ! l + 1 * ?D ! 1 ! l
          else ?D ! k ! l)" if "k < n" "l < n" for k l
    using elem_mul_left_nth [OF sqD z that, of b 1 "b - 1" 1] .
  have "mat_mul ?WD (elem_mat n 0 1 1 x 0 1) ! i ! j
      = (if j = 0 then 1 * ?WD ! i ! 0 + 0 * ?WD ! i ! 1
         else if j = 1 then x * ?WD ! i ! 0 + 1 * ?WD ! i ! 1
         else ?WD ! i ! j)"
    using elem_mul_right_nth [OF sqWD z ij, of 1 x 0 1] .
  then show ?thesis
    using ij z by (simp add: WD [unfolded One_nat_def] D)
qed

lemma sl_Cpp_nth:
  assumes n: "2 \<le> n" and lc: "length C = n - 1" and ij: "i < n" "j < n"
  shows "set_entry (block_diagonal_matrix (identity_matrix 1) C) 1 0 v ! i ! j
       = (if i = 1 \<and> j = 0 then v else if i = 0 \<and> j = 0 then 1
          else if 0 < i \<and> 0 < j then C ! (i - 1) ! (j - 1) else 0)"
proof -
  have sq: "square_mat n (block_diagonal_matrix (identity_matrix 1) C)"
    using square_block_diagonal [of "identity_matrix 1" 1 C "n - 1"] lc n by simp
  have z: "0 < n" "1 < n" using n by simp_all
  have ij': "i < Suc (n - 1)" "j < Suc (n - 1)" using ij by simp_all
  show ?thesis
    unfolding set_entry_nth [OF sq z(2) z(1) ij] block_one_nth [OF lc ij'] by simp
qed

lemma assemble_cong:
  assumes n: "2 \<le> n" and la: "length a = n" and sqC: "square_mat (n - 1) C"
    and cg: "mat_cong N (n - 1) C (sl_reduced a)"
    and dv: "N dvd (a ! 0 * b - 1)"
  shows "mat_cong N n (set_entry (block_diagonal_matrix (identity_matrix 1) C) 1 0 (1 - a ! 0))
           (mat_mul (mat_mul (elem_mat n 0 1 b 1 (b - 1) 1) (diagonal_matrix a))
              (elem_mat n 0 1 1 (- (a ! 1)) 0 1))"
proof (rule mat_congI)
  fix i j assume ij: "i < n" "j < n"
  define d where "d = a ! 0 * b - 1"
  have lc: "length C = n - 1" using sqC by (simp add: square_matD)
  have c: "N dvd (C ! k ! l - (if k = l then (if k = 0 then a ! 1 * a ! 0 else a ! Suc k) else 0))"
    if "k < n - 1" "l < n - 1" for k l
    using mat_congD [OF cg that] sl_reduced_nth [OF n la that] by simp
  have Nd: "N dvd d" using dv by (simp add: d_def)
  let ?L = "set_entry (block_diagonal_matrix (identity_matrix 1) C) 1 0 (1 - a ! 0) ! i ! j"
  let ?R = "mat_mul (mat_mul (elem_mat n 0 1 b 1 (b - 1) 1) (diagonal_matrix a))
              (elem_mat n 0 1 1 (- (a ! 1)) 0 1) ! i ! j"
  note L = sl_Cpp_nth [OF n lc ij, of "1 - a ! 0"]
  note R = sl_WDX_nth [OF n la ij, of b "- (a ! 1)"]
  consider (r0) "i = 0" | (r1) "i = 1" | (r2) "2 \<le> i" by linarith
  then show "N dvd (?L - ?R)"
  proof cases
    case r0
    consider (c0) "j = 0" | (c1) "j = 1" | (c2) "2 \<le> j" by linarith
    then show ?thesis
    proof cases
      case c0
      have "?L - ?R = - d" unfolding L R using r0 c0 by (simp add: d_def algebra_simps)
      then show ?thesis using Nd by simp
    next
      case c1
      have "?L - ?R = a ! 1 * d" unfolding L R using r0 c1 by (simp add: d_def algebra_simps)
      then show ?thesis using Nd by simp
    next
      case c2
      have "?L - ?R = 0" unfolding L R using r0 c2 by simp
      then show ?thesis by simp
    qed
  next
    case r1
    consider (c0) "j = 0" | (c1) "j = 1" | (c2) "2 \<le> j" by linarith
    then show ?thesis
    proof cases
      case c0
      have "?L - ?R = - d" unfolding L R using r1 c0 by (simp add: d_def algebra_simps)
      then show ?thesis using Nd by simp
    next
      case c1
      have "?L - ?R = (C ! 0 ! 0 - a ! 1 * a ! 0) + a ! 1 * d"
        unfolding L R using r1 c1 by (simp add: d_def algebra_simps)
      moreover have "N dvd (C ! 0 ! 0 - a ! 1 * a ! 0)" using c [of 0 0] n by simp
      ultimately show ?thesis using Nd by simp
    next
      case c2
      have "?L - ?R = C ! 0 ! (j - 1)" unfolding L R using r1 c2 by simp
      moreover have "N dvd C ! 0 ! (j - 1)" using c [of 0 "j - 1"] c2 ij by simp
      ultimately show ?thesis by simp
    qed
  next
    case r2
    consider (c0) "j = 0" | (c1) "j = 1" | (c2) "2 \<le> j" by linarith
    then show ?thesis
    proof cases
      case c0
      have "?L - ?R = 0" unfolding L R using r2 c0 by simp
      then show ?thesis by simp
    next
      case c1
      have "?L - ?R = C ! (i - 1) ! 0" unfolding L R using r2 c1 by simp
      moreover have "N dvd C ! (i - 1) ! 0" using c [of "i - 1" 0] r2 ij by simp
      ultimately show ?thesis by simp
    next
      case c2
      have "?L - ?R = C ! (i - 1) ! (j - 1) - (if i = j then a ! i else 0)"
        unfolding L R using r2 c2 by simp
      moreover have "N dvd (C ! (i - 1) ! (j - 1) - (if i = j then a ! i else 0))"
      proof -
        have k: "i - 1 < n - 1" "j - 1 < n - 1" "i - 1 \<noteq> 0" "Suc (i - 1) = i"
          "i - 1 = j - 1 \<longleftrightarrow> i = j"
          using r2 c2 ij by auto
        show ?thesis using c [OF k(1,2)] by (simp only: k if_False)
      qed
      ultimately show ?thesis by simp
    qed
  qed
qed

section \<open>The Smith form and its correction of sign\<close>

text \<open>
  The Smith form has unimodular transformations, of determinant 1 or -1, and a diagonal
  without negative entries. After the correction of sign of lines 216 to 220 both
  transformations have determinant exactly 1 and their product with A is still diagonal.
\<close>

lemma mul_diagonal_left_nth:
  assumes "square_mat n M" and "length ds = n" and "a < n" and "b < n"
  shows "mat_mul (diagonal_matrix ds) M ! a ! b = ds ! a * M ! a ! b"
  using assms by (simp add: diagonal_mul [OF assms(1,2)] scale_rows_def)

lemma mul_diagonal_right_nth:
  assumes "square_mat n M" and "length ds = n" and "a < n" and "b < n"
  shows "mat_mul M (diagonal_matrix ds) ! a ! b = M ! a ! b * ds ! b"
proof -
  have len: "length M = n" using assms(1) by (simp add: square_matD)
  have "mat_mul M (diagonal_matrix ds) ! a ! b = (\<Sum>k<n. M ! a ! k * diagonal_matrix ds ! k ! b)"
    using assms len by (simp add: mat_mul_nth)
  also have "\<dots> = (\<Sum>k<n. M ! a ! k * (if k = b then ds ! b else 0))"
    by (rule sum.cong) (use assms in \<open>auto simp: diagonal_nth\<close>)
  also have "\<dots> = M ! a ! b * ds ! b"
    using assms(4) by (simp add: if_distrib [of "\<lambda>x. _ * x"] cong: if_cong)
  finally show ?thesis .
qed

lemma identity_diagonal: "identity_matrix n = diagonal_matrix (replicate n 1)"
  by (simp add: identity_matrix_def diagonal_matrix_def mk_mat_def)

lemma sign_list_props:
  assumes "1 \<le> n" and "\<bar>d\<bar> = 1"
  shows "length (sign_list n d) = n" and "prod_list (sign_list n d) * d = 1"
  using assms by (auto simp: sign_list_def abs_if split: if_splits)

lemma sign_fix_left:
  assumes "square_mat n M"
  shows "(if d = - 1 then mat_mul (diagonal_matrix (- 1 # replicate (n - 1) 1)) M else M)
       = mat_mul (diagonal_matrix (sign_list n d)) M"
  using assms by (simp add: sign_list_def identity_diagonal [symmetric] mat_mul_identity_left)

lemma sign_fix_right:
  assumes "square_mat n M"
  shows "(if d = - 1 then mat_mul M (diagonal_matrix (- 1 # replicate (n - 1) 1)) else M)
       = mat_mul M (diagonal_matrix (sign_list n d))"
  using assms by (simp add: sign_list_def identity_diagonal [symmetric] mat_mul_identity_right)

text \<open>What lines 215-223 establish, from the contract of the Smith form alone: the two
  transformation matrices are unimodular, and their product with A is diagonal.\<close>

lemma sl_factors_props:
  assumes sq: "square_mat n A" and n: "1 \<le> n"
    and sm: "smith_form A = (D0, U0, V0)"
    and sqU0: "square_mat n U0" and sqV0: "square_mat n V0"
    and dU0: "\<bar>det U0\<bar> = 1" and dV0: "\<bar>det V0\<bar> = 1"
    and od: "\<And>i j. i < n \<Longrightarrow> j < n \<Longrightarrow> i \<noteq> j \<Longrightarrow> mat_mul (mat_mul U0 A) V0 ! i ! j = 0"
    and f: "sl_factors A = (U, V, a)"
  shows "square_mat n U" and "square_mat n V" and "det U = 1" and "det V = 1"
    and "length a = n" and "mat_mul (mat_mul U A) V = diagonal_matrix a"
proof -
  have len: "length A = n" using sq by (simp add: square_matD)
  let ?su = "diagonal_matrix (sign_list n (det U0))"
  let ?sv = "diagonal_matrix (sign_list n (det V0))"
  note lu = sign_list_props [OF n dU0]
  note lv = sign_list_props [OF n dV0]
  have sqs: "square_mat n ?su" "square_mat n ?sv"
    using square_diagonal [of "sign_list n (det U0)"] square_diagonal [of "sign_list n (det V0)"]
      lu(1) lv(1) by simp_all
  have f': "U = (if det U0 = - 1 then mat_mul (diagonal_matrix (- 1 # replicate (n - 1) 1)) U0
                 else U0)"
    "V = (if det V0 = - 1 then mat_mul V0 (diagonal_matrix (- 1 # replicate (n - 1) 1)) else V0)"
    "a = map (\<lambda>i. mat_mul (mat_mul U A) V ! i ! i) [0..<n]"
    using f sm len by (auto simp: sl_factors_def Let_def simp del: One_nat_def)
  have U: "U = mat_mul ?su U0"
    unfolding f'(1) by (rule sign_fix_left [OF sqU0])
  have V: "V = mat_mul V0 ?sv"
    unfolding f'(2) by (rule sign_fix_right [OF sqV0])
  note a = f'(3)
  show sqU: "square_mat n U" using sqs by (simp add: U)
  show sqV: "square_mat n V" using sqV0 by (simp add: V)
  have "det U = det ?su * det U0" unfolding U by (rule det_mul [OF sqs(1) sqU0])
  then show "det U = 1" using lu(2) by (simp add: det_diagonal)
  have "det V = det V0 * det ?sv" unfolding V by (rule det_mul [OF sqV0 sqs(2)])
  then show "det V = 1" using lv(2) by (simp add: det_diagonal mult.commute)
  show "length a = n" by (simp add: a)
  let ?M0 = "mat_mul (mat_mul U0 A) V0"
  have sqM0: "square_mat n ?M0" using sqU0 by simp
  have "mat_mul (mat_mul U A) V = mat_mul (mat_mul ?su (mat_mul U0 A)) (mat_mul V0 ?sv)"
    unfolding U V by (simp add: mat_mul_assoc [OF sqs(1) sqU0 sq])
  also have "\<dots> = mat_mul ?su (mat_mul (mat_mul U0 A) (mat_mul V0 ?sv))"
    using sqs sqU0 sqV0 by (simp add: mat_mul_assoc [where n = n])
  also have "mat_mul (mat_mul U0 A) (mat_mul V0 ?sv) = mat_mul ?M0 ?sv"
    using sqs sqU0 sqV0 by (simp add: mat_mul_assoc [where n = n])
  finally have UAV: "mat_mul (mat_mul U A) V = mat_mul ?su (mat_mul ?M0 ?sv)" .
  have sqD: "square_mat n (mat_mul (mat_mul U A) V)" using sqU by simp
  have off: "mat_mul (mat_mul U A) V ! i ! j = 0" if ij: "i < n" "j < n" "i \<noteq> j" for i j
  proof -
    have sqN: "square_mat n (mat_mul ?M0 ?sv)" using sqM0 by simp
    have "mat_mul ?su (mat_mul ?M0 ?sv) ! i ! j
        = sign_list n (det U0) ! i * (?M0 ! i ! j * sign_list n (det V0) ! j)"
      by (simp only: mul_diagonal_left_nth [OF sqN lu(1) ij(1,2)]
            mul_diagonal_right_nth [OF sqM0 lv(1) ij(1,2)])
    then show ?thesis using od [OF ij] by (simp add: UAV)
  qed
  show "mat_mul (mat_mul U A) V = diagonal_matrix a"
    unfolding a by (rule diagonal_of_entries [OF sqD off])
qed

lemma prod_list_signs:
  fixes xs :: "int list"
  assumes "\<forall>x\<in>set xs. x = 1 \<or> x = - 1"
  shows "\<bar>prod_list xs\<bar> = 1"
  using assms by (induction xs) (auto simp: abs_mult)

text \<open>The contract of the Smith form: unimodular transformations, of determinant 1 or -1,
  and a diagonal matrix without negative entries between them.\<close>

lemma smith_form_contract:
  assumes sq: "square_mat n A" and sm: "smith_form A = (D0, U0, V0)"
  shows "square_mat n U0" and "square_mat n V0"
    and "\<bar>det U0\<bar> = 1" and "\<bar>det V0\<bar> = 1"
    and "D0 = mat_mul (mat_mul U0 A) V0"
    and "\<And>a b. a < n \<Longrightarrow> b < n \<Longrightarrow> a \<noteq> b \<Longrightarrow> D0 ! a ! b = 0"
    and "\<And>a. a < n \<Longrightarrow> 0 \<le> D0 ! a ! a"
proof -
  obtain D U V where dg: "diagonalise A = (D, U, V)" by (metis prod_cases3)
  note c = diagonalise_correct [OF sq dg]
  have len: "length A = n" using sq by (simp add: square_matD)
  define sg where "sg = map (\<lambda>i. if D ! i ! i < 0 then - 1 else (1::int)) [0..<n]"
  have lsg: "length sg = n" by (simp add: sg_def)
  have sqS: "square_mat n (diagonal_matrix sg)" using square_diagonal [of sg] lsg by simp
  have r: "D0 = mat_mul D (diagonal_matrix sg)" "U0 = U" "V0 = mat_mul V (diagonal_matrix sg)"
    using sm dg len by (simp_all add: smith_form_def Let_def sg_def)
  have sqU: "square_mat n U" and sqV: "square_mat n V"
    using c(1,2) by (simp_all add: eprod_square)
  show "square_mat n U0" using sqU by (simp add: r)
  show "square_mat n V0" using sqV by (simp add: r)
  show "\<bar>det U0\<bar> = 1" using eprod_det [OF c(1)] by (simp add: r)
  have "\<bar>prod_list sg\<bar> = 1" by (rule prod_list_signs) (auto simp: sg_def)
  moreover have "det V0 = det V * det (diagonal_matrix sg)"
    unfolding r by (rule det_mul [OF sqV sqS])
  ultimately show "\<bar>det V0\<bar> = 1"
    using eprod_det [OF c(2)] by (simp add: abs_mult det_diagonal)
  have sqUA: "square_mat n (mat_mul U A)" using sqU by simp
  show "D0 = mat_mul (mat_mul U0 A) V0"
    unfolding r c(4) by (rule mat_mul_assoc [OF sqUA sqV sqS])
  have ent: "D0 ! a ! b = D ! a ! b * sg ! b" if "a < n" "b < n" for a b
    unfolding r by (rule mul_diagonal_right_nth [OF c(3) lsg that])
  show "D0 ! a ! b = 0" if "a < n" "b < n" "a \<noteq> b" for a b
    using ent [OF that(1,2)] c(5) [OF that] by simp
  show "0 \<le> D0 ! a ! a" if "a < n" for a
    using ent [OF that that] that by (simp add: sg_def)
qed

text \<open>Both signs occur, on either side: an exchange of rows gives the left transformation
  the determinant -1, a change of sign of a column the right one.\<close>

lemma smith_form_examples:
  "smith_form [[0, 2], [3, 0]] = ([[1, 0], [0, 6]], [[1, 1], [3, 2]], [[1, - 2], [- 1, 3]])"
  "smith_form [[2, 4], [6, 8]] = ([[2, 0], [0, 4]], [[1, 0], [- 3, 1]], [[1, 2], [0, - 1]])"
  "smith_form [[0, 1], [- 1, 0]] = ([[1, 0], [0, 1]], [[0, 1], [1, 0]], [[- 1, 0], [0, 1]])"
  "det [[1, 1], [3, 2]] = - 1" "det [[1, 2], [0, - 1]] = - 1"
  "det [[0, 1], [1, 0]] = - 1" "det [[- 1, 0], [0, 1]] = - 1"
  by code_simp+

lemma sl_factors_model:
  assumes sq: "square_mat n A" and n: "1 \<le> n" and f: "sl_factors A = (U, V, a)"
  shows "square_mat n U" and "square_mat n V" and "det U = 1" and "det V = 1"
    and "length a = n" and "mat_mul (mat_mul U A) V = diagonal_matrix a"
proof -
  obtain D0 U0 V0 where sm: "smith_form A = (D0, U0, V0)" by (metis prod_cases3)
  note c = smith_form_contract [OF sq sm]
  have od: "mat_mul (mat_mul U0 A) V0 ! i ! j = 0" if "i < n" "j < n" "i \<noteq> j" for i j
    using c(6) [OF that] c(5) by simp
  note p = sl_factors_props [OF sq n sm c(1,2,3,4) od f]
  show "square_mat n U" by (rule p(1))
  show "square_mat n V" by (rule p(2))
  show "det U = 1" by (rule p(3))
  show "det V = 1" by (rule p(4))
  show "length a = n" by (rule p(5))
  show "mat_mul (mat_mul U A) V = diagonal_matrix a" by (rule p(6))
qed

text \<open>On these inputs lines 217 to 220 change the sign of the first row of \<open>U\<close>, or of the
  first column of \<open>V\<close>, and the diagonal of line 223 is that of the corrected product.\<close>

lemma sl_factors_examples:
  "sl_factors [[0, 2], [3, 0]] = ([[- 1, - 1], [3, 2]], [[1, - 2], [- 1, 3]], [- 1, 6])"
  "sl_factors [[2, 4], [6, 8]] = ([[1, 0], [- 3, 1]], [[- 1, 2], [0, - 1]], [- 2, 4])"
  by code_simp+

section \<open>The general lift\<close>

text \<open>
  The product of line 245 has determinant 1 and is congruent to A; the contract follows by
  induction on the number of rows.
\<close>

lemma bind_err_Inr [simp]: "bind_err (Inr v) f = f v"
  by (simp add: bind_err_def)

lemma det_left_inverse:
  assumes "square_mat n Y" and "square_mat n M" and "mat_mul Y M = identity_matrix n"
    and "det M = 1"
  shows "det Y = 1"
  using det_mul [OF assms(1,2)] assms(3,4) by (simp add: det_identity)

lemma cancel_left:
  assumes "square_mat n Y" and "square_mat n M" and "square_mat n Z"
    and "mat_mul Y M = identity_matrix n"
  shows "mat_mul Y (mat_mul M Z) = Z"
  using assms mat_mul_assoc [OF assms(1,2,3)] by (simp add: mat_mul_identity_left)

lemma cancel_right:
  assumes "square_mat n Y" and "square_mat n M" and "square_mat n Z"
    and "mat_mul M Y = identity_matrix n"
  shows "mat_mul (mat_mul Z M) Y = Z"
  using assms mat_mul_assoc [OF assms(3,2,1)] by (simp add: mat_mul_identity_right)

lemma sl_Cpp_elem:
  assumes n: "2 \<le> n" and sqC: "square_mat (n - 1) C"
  shows "set_entry (block_diagonal_matrix (identity_matrix 1) C) 1 0 v
       = mat_mul (elem_mat n 0 1 1 0 v 1) (block_diagonal_matrix (identity_matrix 1) C)"
proof (rule mat_eqI [of n])
  let ?B = "block_diagonal_matrix (identity_matrix 1) C"
  have lc: "length C = n - 1" using sqC by (simp add: square_matD)
  have sqB: "square_mat n ?B"
    using square_block_diagonal [of "identity_matrix 1" 1 C "n - 1"] lc n by simp
  show "square_mat n (set_entry ?B 1 0 v)" using sqB by (rule square_set_entry)
  show "square_mat n (mat_mul (elem_mat n 0 1 1 0 v 1) ?B)" by simp
  fix i j assume ij: "i < n" "j < n"
  have z: "(0::nat) \<noteq> 1" "0 < n" "1 < n" using n by simp_all
  have B: "?B ! k ! l = (if k = 0 \<and> l = 0 then 1
       else if 0 < k \<and> 0 < l then C ! (k - 1) ! (l - 1) else 0)" if "k < n" "l < n" for k l
    using block_one_nth [OF lc, of k l] that by simp
  show "set_entry ?B 1 0 v ! i ! j = mat_mul (elem_mat n 0 1 1 0 v 1) ?B ! i ! j"
    unfolding sl_Cpp_nth [OF n lc ij] elem_mul_left_nth [OF sqB z ij]
    using ij z by (simp add: B [unfolded One_nat_def])
qed

lemma det_sl_Cpp:
  assumes n: "2 \<le> n" and sqC: "square_mat (n - 1) C"
  shows "det (set_entry (block_diagonal_matrix (identity_matrix 1) C) 1 0 v) = det C"
proof -
  let ?B = "block_diagonal_matrix (identity_matrix 1) C"
  have lc: "length C = n - 1" using sqC by (simp add: square_matD)
  have sqB: "square_mat n ?B"
    using square_block_diagonal [of "identity_matrix 1" 1 C "n - 1"] lc n by simp
  have z: "(0::nat) \<noteq> 1" "0 < n" "1 < n" using n by simp_all
  have "det (mat_mul (elem_mat n 0 1 1 0 v 1) ?B) = (1 * 1 - 0 * v) * det ?B"
    by (rule det_elem_mul [OF sqB z])
  then show ?thesis
    by (simp add: sl_Cpp_elem [OF n sqC] det_block_one [OF sqC] del: One_nat_def)
qed

text \<open>Lines 225-245: given unimodular U and V with U * A * V = diag a and a lift C of the
  reduced problem, the assembled matrix has determinant 1 and is congruent to A.\<close>

lemma sl_assemble_correct:
  assumes n: "2 \<le> n" and sqA: "square_mat n A"
    and sqU: "square_mat n U" and sqV: "square_mat n V"
    and dU: "det U = 1" and dV: "det V = 1"
    and la: "length a = n" and D: "mat_mul (mat_mul U A) V = diagonal_matrix a"
    and dA: "N dvd (det A - 1)"
    and sqC: "square_mat (n - 1) C" and dC: "det C = 1"
    and cg: "mat_cong N (n - 1) C (sl_reduced a)"
  shows "\<exists>L. sl_assemble n U V a C = Inr L \<and> square_mat n L \<and> det L = 1 \<and> mat_cong N n L A"
proof -
  define b where "b = prod_list (tl a)"
  define W where "W = elem_mat n 0 1 b 1 (b - 1) 1"
  define X where "X = elem_mat n 0 1 1 (- (a ! 1)) 0 1"
  define Cpp where "Cpp = set_entry (block_diagonal_matrix (identity_matrix 1) C) 1 0 (1 - a ! 0)"
  define Dm where "Dm = diagonal_matrix a"
  have z: "(0::nat) \<noteq> 1" "0 < n" "1 < n" using n by simp_all
  have sqW: "square_mat n W" and sqX: "square_mat n X" by (simp_all add: W_def X_def)
  have sqD: "square_mat n Dm" using square_diagonal [of a] la by (simp add: Dm_def)
  have dW: "det W = 1" unfolding W_def det_elem [OF z] by simp
  have dX: "det X = 1" unfolding X_def det_elem [OF z] by simp
  have lc: "length C = n - 1" using sqC by (simp add: square_matD)
  have sqCpp: "square_mat n Cpp"
    unfolding Cpp_def
    using square_block_diagonal [of "identity_matrix 1" 1 C "n - 1"] lc n
    by (simp add: square_set_entry)
  have dCpp: "det Cpp = 1" unfolding Cpp_def using det_sl_Cpp [OF n sqC] dC by simp
  have "det Dm = det (mat_mul U A) * det V"
    unfolding Dm_def D [symmetric] using sqU sqV by (simp add: det_mul [where n = n])
  also have "det (mat_mul U A) = det U * det A" by (rule det_mul [OF sqU sqA])
  finally have "det Dm = det A" using dU dV by simp
  moreover have "det Dm = a ! 0 * b"
  proof -
    obtain x r where "a = x # r" using la n by (cases a) auto
    then show ?thesis by (simp add: Dm_def det_diagonal b_def)
  qed
  ultimately have dv: "N dvd (a ! 0 * b - 1)" using dA by simp
  from mat_inverse_unimodular [OF sqU] dU obtain Ui where
    Ui: "mat_inverse U = Inr Ui" "square_mat n Ui"
      "mat_mul Ui U = identity_matrix n" "mat_mul U Ui = identity_matrix n" by auto
  from mat_inverse_unimodular [OF sqW] dW obtain Wi where
    Wi: "mat_inverse W = Inr Wi" "square_mat n Wi"
      "mat_mul Wi W = identity_matrix n" "mat_mul W Wi = identity_matrix n" by auto
  from mat_inverse_unimodular [OF sqX] dX obtain Xi where
    Xi: "mat_inverse X = Inr Xi" "square_mat n Xi"
      "mat_mul Xi X = identity_matrix n" "mat_mul X Xi = identity_matrix n" by auto
  from mat_inverse_unimodular [OF sqV] dV obtain Vi where
    Vi: "mat_inverse V = Inr Vi" "square_mat n Vi"
      "mat_mul Vi V = identity_matrix n" "mat_mul V Vi = identity_matrix n" by auto
  define L where "L = mat_mul (mat_mul (mat_mul (mat_mul Ui Wi) Cpp) Xi) Vi"
  define M where "M = mat_mul (mat_mul W Dm) X"
  have sqM: "square_mat n M" using sqW by (simp add: M_def)
  have res: "sl_assemble n U V a C = Inr L"
    using Ui(1) Wi(1) Xi(1) Vi(1)
    by (simp add: sl_assemble_def Let_def sl_W_elem [OF n] sl_X_elem [OF n]
          b_def [symmetric] W_def [symmetric] X_def [symmetric] Cpp_def [symmetric] L_def
          del: One_nat_def)
  have sqL: "square_mat n L" using Ui(2) by (simp add: L_def)
  have dUi: "det Ui = 1" by (rule det_left_inverse [OF Ui(2) sqU Ui(3) dU])
  have dWi: "det Wi = 1" by (rule det_left_inverse [OF Wi(2) sqW Wi(3) dW])
  have dXi: "det Xi = 1" by (rule det_left_inverse [OF Xi(2) sqX Xi(3) dX])
  have dVi: "det Vi = 1" by (rule det_left_inverse [OF Vi(2) sqV Vi(3) dV])
  have dL: "det L = 1"
    unfolding L_def using Ui(2) Wi(2) Xi(2) Vi(2) sqCpp dUi dWi dXi dVi dCpp
    by (simp add: det_mul [where n = n])
  have cM: "mat_cong N n Cpp M"
    unfolding Cpp_def M_def W_def X_def Dm_def
    by (rule assemble_cong [OF n la sqC cg dv])
  have sqUW: "square_mat n (mat_mul Ui Wi)" using Ui(2) by simp
  have c1: "mat_cong N n (mat_mul (mat_mul Ui Wi) Cpp) (mat_mul (mat_mul Ui Wi) M)"
    by (rule mat_cong_mul_left [OF cM sqUW sqCpp sqM])
  have c2: "mat_cong N n (mat_mul (mat_mul (mat_mul Ui Wi) Cpp) Xi)
              (mat_mul (mat_mul (mat_mul Ui Wi) M) Xi)"
    using sqUW by (intro mat_cong_mul_right [OF c1 Xi(2)]) simp_all
  have c3: "mat_cong N n L (mat_mul (mat_mul (mat_mul (mat_mul Ui Wi) M) Xi) Vi)"
    unfolding L_def using sqUW by (intro mat_cong_mul_right [OF c2 Vi(2)]) simp_all
  have e1: "mat_mul (mat_mul Ui Wi) M = mat_mul Ui (mat_mul Wi M)"
    by (rule mat_mul_assoc [OF Ui(2) Wi(2) sqM])
  have e2: "mat_mul Wi M = mat_mul Dm X"
  proof -
    have "M = mat_mul W (mat_mul Dm X)" unfolding M_def by (rule mat_mul_assoc [OF sqW sqD sqX])
    then show ?thesis
      using cancel_left [OF Wi(2) sqW _ Wi(3), of "mat_mul Dm X"] sqD by simp
  qed
  have e3: "mat_mul (mat_mul Ui (mat_mul Dm X)) Xi = mat_mul Ui Dm"
  proof -
    have sqDX: "square_mat n (mat_mul Dm X)" using sqD by simp
    have "mat_mul (mat_mul Ui (mat_mul Dm X)) Xi = mat_mul Ui (mat_mul (mat_mul Dm X) Xi)"
      by (rule mat_mul_assoc [OF Ui(2) sqDX Xi(2)])
    then show ?thesis using cancel_right [OF Xi(2) sqX sqD Xi(4)] by simp
  qed
  have e4: "mat_mul (mat_mul Ui Dm) Vi = A"
  proof -
    have sqUA: "square_mat n (mat_mul U A)" using sqU by simp
    have "mat_mul Ui Dm = mat_mul Ui (mat_mul U (mat_mul A V))"
      unfolding Dm_def D [symmetric] by (simp add: mat_mul_assoc [OF sqU sqA sqV])
    also have "\<dots> = mat_mul A V"
      using sqA by (intro cancel_left [OF Ui(2) sqU _ Ui(3)]) simp
    finally show ?thesis using cancel_right [OF Vi(2) sqV sqA Vi(4)] by simp
  qed
  have "mat_mul (mat_mul (mat_mul (mat_mul Ui Wi) M) Xi) Vi = A"
    by (simp only: e1 e2 e3 e4)
  with c3 have "mat_cong N n L A" by simp
  with res sqL dL show ?thesis by blast
qed

lemma det_one_by_one:
  assumes "square_mat 1 A"
  shows "det A = A ! 0 ! 0"
proof -
  obtain r where A: "A = [r]" using assms by (cases A) (auto simp: square_mat_def)
  have "map tl (del_row 0 A) = []" by (simp add: A del_row_def)
  then show ?thesis using det_Suc [of 0 A] assms by simp
qed

lemma lift_for_SL_correct:
  "square_mat n A \<Longrightarrow> 1 \<le> n \<Longrightarrow> N dvd (det A - 1) \<Longrightarrow>
     \<exists>L. lift_for_SL A N = Inr L \<and> square_mat n L \<and> det L = 1 \<and> mat_cong N n L A"
proof (induction n arbitrary: A)
  case 0
  then show ?case by simp
next
  case (Suc k)
  have len: "length A = Suc k" using Suc.prems(1) by (simp add: square_matD)
  show ?case
  proof (cases "k = 0")
    case True
    have sq1: "square_mat 1 A" using Suc.prems(1) True by simp
    have r: "lift_for_SL A N = Inr (identity_matrix 1)"
      using sq1 by (simp add: lift_for_SL.simps [of A N] square_matD)
    have "N dvd (identity_matrix 1 ! 0 ! 0 - A ! 0 ! 0)"
      using Suc.prems(3) det_one_by_one [OF sq1]
      by (simp add: identity_nth dvd_diff_commute)
    then have "mat_cong N 1 (identity_matrix 1) A" by (simp add: mat_cong_def)
    then show ?thesis using r True by (simp add: det_identity)
  next
    case False
    then have n: "2 \<le> Suc k" by simp
    obtain U V a where f: "sl_factors A = (U, V, a)" by (metis prod_cases3)
    note p = sl_factors_model [OF Suc.prems(1,2) f]
    have sqR: "square_mat k (sl_reduced a)" using square_sl_reduced [OF p(5)] by simp
    have "det (mat_mul (mat_mul U A) V) = det (mat_mul U A) * det V"
      using p(1,2) by (simp add: det_mul [where n = "Suc k"])
    also have "det (mat_mul U A) = det U * det A" by (rule det_mul [OF p(1) Suc.prems(1)])
    finally have "prod_list a = det A" using p(3,4) by (simp add: p(6) det_diagonal)
    then have dR: "N dvd (det (sl_reduced a) - 1)"
      using Suc.prems(3) by (simp add: det_sl_reduced [OF n p(5)])
    from Suc.IH [OF sqR _ dR] False obtain C where
      C: "lift_for_SL (sl_reduced a) N = Inr C" "square_mat k C" "det C = 1"
        "mat_cong N k C (sl_reduced a)" by auto
    have sqC: "square_mat (Suc k - 1) C" and cg: "mat_cong N (Suc k - 1) C (sl_reduced a)"
      using C by simp_all
    have r: "lift_for_SL A N = sl_assemble (Suc k) U V a C"
      using Suc.prems(1) len False f C(1) by (simp add: lift_for_SL.simps [of A N])
    show ?thesis
      unfolding r
      by (rule sl_assemble_correct [OF n Suc.prems(1) p(1,2,3,4,5,6) Suc.prems(3) sqC C(3) cg])
  qed
qed

text \<open>The lift on the two inputs whose Smith form needs the correction of sign.\<close>

lemma lift_for_SL_examples:
  "lift_for_SL [[0, 2], [3, 0]] 7 = Inr [[49, 44], [- 39, - 35]]"
  "lift_for_SL [[2, 4], [6, 8]] 3 = Inr [[2, 13], [- 3, - 19]]"
  by code_simp+

section \<open>The claims\<close>

text \<open>
  C1 (base lift contract). For integers \<open>a, b, c, d\<close> and coprime positive moduli \<open>m, n\<close>
  with \<open>m \<ge> 2\<close> and \<open>a d - b c \<equiv> 1 (mod m)\<close>, \<open>lift_to_gamma1\<close> returns four integers
  \<open>a', b', c', d'\<close> with \<open>a' d' - b' c' = 1\<close> exactly, congruent to \<open>a, b, c, d\<close> entry by entry
  modulo \<open>m\<close>, and with \<open>a' \<equiv> 1\<close>, \<open>c' \<equiv> 0\<close>, \<open>d' \<equiv> 1\<close> modulo \<open>n\<close>.
\<close>

theorem lift_to_gamma1_base_contract:
  assumes "2 \<le> m" and "0 < n" and "coprime m n" and "(a * d - b * c) mod m = 1"
  shows "\<exists>a' b' c' d'. lift_to_gamma1 [a, b, c, d] m n = Inr [a', b', c', d']
           \<and> a' * d' - b' * c' = 1
           \<and> a' mod m = a mod m \<and> b' mod m = b mod m \<and> c' mod m = c mod m \<and> d' mod m = d mod m
           \<and> a' mod n = 1 mod n \<and> c' mod n = 0 \<and> d' mod n = 1 mod n"
proof -
  from lift_to_gamma1_contract [OF assms] obtain a' b' c' d'
    where "lift_to_gamma1 [a, b, c, d] m n = Inr [a', b', c', d']"
      and "a' * d' - b' * c' = 1"
      and "m dvd a' - a" "m dvd b' - b" "m dvd c' - c" "m dvd d' - d"
      and "n dvd a' - 1" "n dvd c'" "n dvd d' - 1"
    by blast
  then show ?thesis
    by (simp add: mod_eq_dvd_iff dvd_eq_mod_eq_0 [symmetric])
qed

theorem lift_to_gamma1_base_contract_witness:
  "2 \<le> (19::int) \<and> 0 < (5::int) \<and> coprime (19::int) 5 \<and> (10 * 11 - 11 * 3) mod 19 = (1::int)
   \<and> (\<exists>a' b' c' d'. lift_to_gamma1 [10, 11, 3, 11] 19 5 = Inr [a', b', c', d']
           \<and> a' * d' - b' * c' = 1
           \<and> a' mod 19 = 10 mod 19 \<and> b' mod 19 = 11 mod 19 \<and> c' mod 19 = 3 mod 19
           \<and> d' mod 19 = 11 mod 19
           \<and> a' mod 5 = 1 mod 5 \<and> c' mod 5 = 0 \<and> d' mod 5 = 1 mod 5)"
proof -
  have h1: "2 \<le> (19::int)" by simp
  have h2: "0 < (5::int)" by simp
  have h3: "coprime (19::int) 5" by code_simp
  have h4: "(10 * 11 - 11 * 3) mod 19 = (1::int)" by simp
  from lift_to_gamma1_base_contract [OF h1 h2 h3 h4] h1 h2 h3 h4 show ?thesis
    by blast
qed

text \<open>
  C7 (the convention for \<open>m = 1\<close>). For every list \<open>g\<close> and every \<open>n\<close>,
  \<open>lift_to_gamma1 g 1 n\<close> returns the identity \<open>(1, 0, 0, 1)\<close>: the entries of \<open>g\<close> are not
  read, the determinant is not checked and no error is raised.
\<close>

theorem lift_to_gamma1_m_one: "lift_to_gamma1 g 1 n = Inr [1, 0, 0, 1]"
  by (simp add: lift_to_gamma1_def)

text \<open>
  C8 (specialisations). \<open>lift_matrix_to_sl2z A N\<close> is \<open>lift_to_gamma1 A N 1\<close>, and
  \<open>lift_gen_to_gamma1 m n\<close> is \<open>lift_to_gamma1\<close> applied to \<open>(0, -1, 1, 0)\<close>, for all arguments,
  errors included.
\<close>

theorem specialisations_are_base_lift:
  "lift_matrix_to_sl2z A N = lift_to_gamma1 A N 1
   \<and> lift_gen_to_gamma1 m n = lift_to_gamma1 [0, - 1, 1, 0] m n"
  by (simp add: lift_matrix_to_sl2z_def lift_gen_to_gamma1_def)

text \<open>
  C6 (when the base lift raises). For \<open>m \<ge> 2\<close>, \<open>lift_to_gamma1\<close> raises the \<open>ValueError\<close>
  whose message reports the residue \<open>(a d - b c) mod m\<close> and the modulus \<open>m\<close> exactly when that
  residue is not \<open>1\<close>; when the residue is \<open>1\<close> it raises no determinant error at all, and
  for a positive \<open>n\<close> coprime to \<open>m\<close> it raises nothing. The same holds of
  \<open>lift_matrix_to_sl2z\<close> with modulus \<open>m\<close>, and the input \<open>(2, 0, 0, 1)\<close> with modulus \<open>5\<close>
  raises with the message "Determinant is 2 mod 5, should be 1".
\<close>

theorem lift_to_gamma1_raises_iff:
  assumes "2 \<le> m"
  shows "(lift_to_gamma1 [a, b, c, d] m n = Inl (ValueError (det_message ((a * d - b * c) mod m) m)))
           = ((a * d - b * c) mod m \<noteq> 1)
       \<and> ((a * d - b * c) mod m = 1 \<longrightarrow>
            (\<forall>r k. lift_to_gamma1 [a, b, c, d] m n \<noteq> Inl (ValueError (det_message r k))))
       \<and> ((a * d - b * c) mod m = 1 \<longrightarrow> 0 < n \<longrightarrow> coprime m n \<longrightarrow>
            (\<exists>l. lift_to_gamma1 [a, b, c, d] m n = Inr l))
       \<and> (lift_matrix_to_sl2z [a, b, c, d] m = Inl (ValueError (det_message ((a * d - b * c) mod m) m)))
           = ((a * d - b * c) mod m \<noteq> 1)
       \<and> ((a * d - b * c) mod m = 1 \<longrightarrow> (\<exists>l. lift_matrix_to_sl2z [a, b, c, d] m = Inr l))
       \<and> lift_matrix_to_sl2z [2, 0, 0, 1] 5
           = Inl (ValueError ''Determinant is 2 mod 5, should be 1'')"
proof -
  have m0: "m \<noteq> 0" and m1: "m \<noteq> 1" using assms by simp_all
  have raise: "lift_to_gamma1 [a, b, c, d] m k
      = Inl (ValueError (det_message ((a * d - b * c) mod m) m))"
    if "(a * d - b * c) mod m \<noteq> 1" for k
    using that m0 m1 by (simp add: lift_to_gamma1_def Let_def)
  have quiet: "lift_to_gamma1 [a, b, c, d] m k \<noteq> Inl (ValueError (det_message r j))"
    if "(a * d - b * c) mod m = 1" for k r j
    using lift_to_gamma1_no_det_error [OF m0 that] .
  have ok: "\<exists>l. lift_to_gamma1 [a, b, c, d] m k = Inr l"
    if "(a * d - b * c) mod m = 1" "0 < k" "coprime m k" for k
    using lift_to_gamma1_contract [OF assms that(2) that(3) that(1)] by blast
  have c1: "(lift_to_gamma1 [a, b, c, d] m n
      = Inl (ValueError (det_message ((a * d - b * c) mod m) m))) = ((a * d - b * c) mod m \<noteq> 1)"
    using raise [of n] quiet [of n] by blast
  have c4: "(lift_matrix_to_sl2z [a, b, c, d] m
      = Inl (ValueError (det_message ((a * d - b * c) mod m) m))) = ((a * d - b * c) mod m \<noteq> 1)"
    unfolding lift_matrix_to_sl2z_def using raise [of 1] quiet [of 1] by blast
  have c5: "(a * d - b * c) mod m = 1 \<longrightarrow> (\<exists>l. lift_matrix_to_sl2z [a, b, c, d] m = Inr l)"
    unfolding lift_matrix_to_sl2z_def using ok [of 1] by simp
  have c6: "lift_matrix_to_sl2z [2, 0, 0, 1] 5
      = Inl (ValueError ''Determinant is 2 mod 5, should be 1'')"
    by code_simp
  show ?thesis
    using c1 quiet ok c4 c5 c6 by blast
qed

theorem lift_to_gamma1_raises_iff_witness:
  "2 \<le> (5::int) \<and> (2 * 1 - 0 * 0) mod 5 \<noteq> (1::int)
   \<and> lift_to_gamma1 [2, 0, 0, 1] 5 1 = Inl (ValueError (det_message 2 5))
   \<and> 2 \<le> (19::int) \<and> (10 * 11 - 11 * 3) mod 19 = (1::int) \<and> 0 < (5::int) \<and> coprime (19::int) 5
   \<and> (\<exists>l. lift_to_gamma1 [10, 11, 3, 11] 19 5 = Inr l)
   \<and> (\<exists>l. lift_matrix_to_sl2z [10, 11, 3, 11] 19 = Inr l)"
proof -
  have h1: "2 \<le> (5::int)" by simp
  have h2: "2 \<le> (19::int)" by simp
  have h3: "coprime (19::int) 5" by code_simp
  have e1: "(2 * 1 - 0 * 0) mod 5 = (2::int)" by simp
  have e2: "(10 * 11 - 11 * 3) mod 19 = (1::int)" by simp
  from lift_to_gamma1_raises_iff [OF h1, of 2 0 0 1 1]
  have "lift_to_gamma1 [2, 0, 0, 1] 5 1 = Inl (ValueError (det_message 2 5))"
    unfolding e1 by simp
  moreover from lift_to_gamma1_raises_iff [OF h2, of 10 11 3 11 5]
  have "(\<exists>l. lift_to_gamma1 [10, 11, 3, 11] 19 5 = Inr l)
      \<and> (\<exists>l. lift_matrix_to_sl2z [10, 11, 3, 11] 19 = Inr l)"
    unfolding e2 using h3 by simp
  ultimately show ?thesis using h1 h2 h3 e1 e2 by simp
qed

text \<open>
  C4 (the example of the plain lift). On the list \<open>(10, 11, 3, 11)\<close> with modulus \<open>19\<close>,
  \<open>lift_matrix_to_sl2z\<close> returns \<open>(29, 106, 3, 11)\<close>, the value of the module's own doctest,
  which has determinant \<open>1\<close> and reduces to the input modulo \<open>19\<close>. The tuple
  \<open>(371, 68, 60, 11)\<close> of the claim is the result of \<open>lift_to_gamma1\<close> on the same list with
  the moduli \<open>19\<close> and \<open>5\<close>.
\<close>

theorem lift_matrix_to_sl2z_example:
  "lift_matrix_to_sl2z [10, 11, 3, 11] 19 = Inr [29, 106, 3, 11]
   \<and> 29 * 11 - 106 * 3 = (1::int)
   \<and> map (\<lambda>x. x mod 19) [29, 106, 3, 11] = [10, 11, 3, 11 :: int]"
  by code_simp

theorem lift_matrix_to_sl2z_example_counterexample:
  "lift_matrix_to_sl2z [10, 11, 3, 11] 19 \<noteq> Inr [371, 68, 60, 11]"
  by code_simp

text \<open>
  C3 (ramified lift contract). For a prime \<open>p\<close>, an exponent \<open>u \<ge> 1\<close>, a positive modulus \<open>n\<close>
  coprime to \<open>p\<close> and integers \<open>a, b, c, d\<close> with \<open>p\<close> dividing \<open>c\<close> and
  \<open>a d - b c \<equiv> 1 (mod p^u)\<close>, \<open>lift_ramified\<close> returns \<open>a', b', c', d'\<close> congruent to
  \<open>a, b, c, d\<close> entry by entry modulo \<open>p^u\<close>, with \<open>c' \<equiv> c\<close> modulo \<open>p^(u+1)\<close>, with
  \<open>a' d' - b' c' = 1\<close> exactly, and upper unitriangular modulo \<open>n\<close>: \<open>a' \<equiv> 1\<close>, \<open>c' \<equiv> 0\<close>,
  \<open>d' \<equiv> 1\<close>.
\<close>

theorem lift_ramified_contract_holds:
  assumes "is_prime p" and "1 \<le> u" and "0 < n" and "coprime n p"
    and "p dvd c" and "(a * d - b * c) mod p ^ u = 1"
  shows "\<exists>a' b' c' d'. lift_ramified [a, b, c, d] p u n = Inr [a', b', c', d']
           \<and> a' mod p ^ u = a mod p ^ u \<and> b' mod p ^ u = b mod p ^ u
           \<and> c' mod p ^ u = c mod p ^ u \<and> d' mod p ^ u = d mod p ^ u
           \<and> c' mod p ^ (u + 1) = c mod p ^ (u + 1)
           \<and> a' * d' - b' * c' = 1
           \<and> a' mod n = 1 mod n \<and> c' mod n = 0 \<and> d' mod n = 1 mod n"
proof -
  have p: "1 < p" using assms(1) by (rule is_prime_gt_1)
  from lift_ramified_contract [OF p assms(2-6)] obtain a' b' c' d'
    where "lift_ramified [a, b, c, d] p u n = Inr [a', b', c', d']"
      and "a' * d' - b' * c' = 1"
      and "p ^ u dvd a' - a" "p ^ u dvd b' - b" "p ^ u dvd c' - c" "p ^ u dvd d' - d"
      and "p ^ (u + 1) dvd c' - c"
      and "n dvd a' - 1" "n dvd c'" "n dvd d' - 1"
    by blast
  then show ?thesis
    by (simp add: mod_eq_dvd_iff dvd_eq_mod_eq_0 [symmetric])
qed

theorem lift_ramified_contract_holds_witness:
  "is_prime 3 \<and> 1 \<le> (2::nat) \<and> 0 < (23::int) \<and> coprime (23::int) 3 \<and> (3::int) dvd 12
   \<and> (8 * 2 - 2 * 12) mod 3 ^ 2 = (1::int)
   \<and> (\<exists>a' b' c' d'. lift_ramified [8, 2, 12, 2] 3 2 23 = Inr [a', b', c', d']
           \<and> a' mod 3 ^ 2 = 8 mod 3 ^ 2 \<and> b' mod 3 ^ 2 = 2 mod 3 ^ 2
           \<and> c' mod 3 ^ 2 = 12 mod 3 ^ 2 \<and> d' mod 3 ^ 2 = 2 mod 3 ^ 2
           \<and> c' mod 3 ^ (2 + 1) = 12 mod 3 ^ (2 + 1)
           \<and> a' * d' - b' * c' = 1
           \<and> a' mod 23 = 1 mod 23 \<and> c' mod 23 = 0 \<and> d' mod 23 = 1 mod 23)"
proof -
  have h1: "is_prime 3" by code_simp
  have h2: "1 \<le> (2::nat)" by simp
  have h3: "0 < (23::int)" by simp
  have h4: "coprime (23::int) 3" by code_simp
  have h5: "(3::int) dvd 12" by simp
  have h6: "(8 * 2 - 2 * 12) mod 3 ^ 2 = (1::int)" by simp
  from lift_ramified_contract_holds [OF h1 h2 h3 h4 h5 h6] h1 h2 h3 h4 h5 h6 show ?thesis
    by blast
qed

text \<open>
  C10 (the correction step of the ramified lift is well defined). For a prime \<open>p\<close>, any
  exponent \<open>u\<close>, a positive modulus \<open>n\<close> coprime to \<open>p\<close> and \<open>a, b, c, d\<close> with \<open>p\<close> dividing \<open>c\<close>
  and \<open>a d - b c \<equiv> 1 (mod p^u)\<close>: the base lift returns \<open>a1, b1, c1, d1\<close> with \<open>p^u\<close> dividing
  \<open>c1 - c\<close>, so the division by \<open>p^u\<close> is exact; \<open>a1\<close> is coprime to \<open>p\<close>, so \<open>inverse_mod\<close> returns;
  \<open>crt\<close> returns; and \<open>lift_ramified\<close> returns without an error.
\<close>

theorem lift_ramified_correction_well_defined:
  assumes "is_prime p" and "0 < n" and "coprime n p"
    and "p dvd c" and "(a * d - b * c) mod p ^ u = 1 mod p ^ u"
  shows "\<exists>a1 b1 c1 d1 i r l. lift_to_gamma1 [a, b, c, d] (p ^ u) n = Inr [a1, b1, c1, d1]
           \<and> p ^ u dvd c1 - c \<and> coprime a1 p \<and> inverse_mod a1 p = Inr i
           \<and> crt ((c1 - c) div p ^ u * i) 0 p n = Inr r
           \<and> lift_ramified [a, b, c, d] p u n = Inr l"
proof -
  have p: "1 < p" using assms(1) by (rule is_prime_gt_1)
  show ?thesis by (rule lift_ramified_safe [OF p assms(2-5)])
qed

theorem lift_ramified_correction_well_defined_witness:
  "is_prime 3 \<and> 0 < (1::int) \<and> coprime (1::int) 3 \<and> (3::int) dvd 3
   \<and> (2 * 2 - 2 * 3) mod 3 ^ 1 = (1::int) mod 3 ^ 1
   \<and> (\<exists>a1 b1 c1 d1 i r l. lift_to_gamma1 [2, 2, 3, 2] (3 ^ 1) 1 = Inr [a1, b1, c1, d1]
           \<and> 3 ^ 1 dvd c1 - 3 \<and> coprime a1 3 \<and> inverse_mod a1 3 = Inr i
           \<and> crt ((c1 - 3) div 3 ^ 1 * i) 0 3 1 = Inr r
           \<and> lift_ramified [2, 2, 3, 2] 3 1 1 = Inr l)"
proof -
  have h1: "is_prime 3" by code_simp
  have h2: "0 < (1::int)" by simp
  have h3: "coprime (1::int) 3" by simp
  have h4: "(3::int) dvd 3" by simp
  have h5: "(2 * 2 - 2 * 3) mod 3 ^ 1 = (1::int) mod 3 ^ 1" by simp
  from lift_ramified_correction_well_defined [OF h1 h2 h3 h4 h5] h1 h2 h3 h4 h5 show ?thesis
    by blast
qed

text \<open>
  C5 (uniformiser lift). \<open>lift_uniformiser_odd 3 2 11\<close> returns \<open>(432, 377, 165, 144)\<close>, the value
  of the module's doctest: the generator lift \<open>(144, 377, 55, 144)\<close> modulo \<open>9\<close> and \<open>11\<close> with
  its first and third entries multiplied by \<open>3\<close>, of determinant \<open>3\<close>. Modulo \<open>11\<close> it is
  \<open>(3, 3, 0, 1)\<close>: the upper right entry is \<open>3\<close>, where the docstring's matrix
  \<open>diag(p, 1)\<close> has \<open>0\<close>.
\<close>

theorem lift_uniformiser_odd_upper_right:
  "lift_gen_to_gamma1 (3 ^ 2) 11 = Inr [144, 377, 55, 144]
   \<and> lift_uniformiser_odd 3 2 11 = Inr [432, 377, 165, 144]
   \<and> 432 * 144 - 377 * 165 = (3::int)
   \<and> map (\<lambda>x. x mod 11) [432, 377, 165, 144] = [3, 3, 0, 1 :: int]"
  by code_simp

text \<open>
  C2 (general lift contract). For every \<open>n\<close>-by-\<open>n\<close> integer matrix \<open>A\<close> with \<open>n \<ge> 1\<close> whose
  determinant is congruent to 1 modulo \<open>N\<close>, \<open>lift_for_SL A N\<close> returns an \<open>n\<close>-by-\<open>n\<close> integer
  matrix \<open>L\<close> with determinant exactly 1 whose entries are congruent to those of \<open>A\<close> modulo
  \<open>N\<close>; for \<open>n = 1\<close> it is the 1-by-1 identity matrix.
\<close>

theorem lift_for_SL_general_contract:
  assumes "square_mat n A" and "1 \<le> n" and "det A mod N = 1 mod N"
  shows "\<exists>L. lift_for_SL A N = Inr L \<and> square_mat n L \<and> det L = 1
           \<and> (\<forall>i<n. \<forall>j<n. L ! i ! j mod N = A ! i ! j mod N)
           \<and> (n = 1 \<longrightarrow> L = identity_matrix 1)"
proof -
  have "N dvd (det A - 1)" using assms(3) by (simp add: mod_eq_dvd_iff)
  from lift_for_SL_correct [OF assms(1,2) this] obtain L where
    L: "lift_for_SL A N = Inr L" "square_mat n L" "det L = 1" "mat_cong N n L A" by blast
  have "L ! i ! j mod N = A ! i ! j mod N" if "i < n" "j < n" for i j
    using mat_congD [OF L(4) that] by (simp add: mod_eq_dvd_iff)
  moreover have "L = identity_matrix 1" if "n = 1"
    using that assms(1) L(1) by (simp add: lift_for_SL.simps [of A N] square_matD)
  ultimately show ?thesis using L(1,2,3) by blast
qed

theorem lift_for_SL_general_contract_witness:
  "square_mat 4 [[6, 0, 0, 9], [1, 6, 9, 4], [4, 4, 8, 0], [4, 0, 0, 8]]
   \<and> 1 \<le> (4::nat)
   \<and> det [[6, 0, 0, 9], [1, 6, 9, 4], [4, 4, 8, 0], [4, 0, 0, 8]] mod 11 = 1 mod 11
   \<and> (\<exists>L. lift_for_SL [[6, 0, 0, 9], [1, 6, 9, 4], [4, 4, 8, 0], [4, 0, 0, 8]] 11 = Inr L
         \<and> square_mat 4 L \<and> det L = 1
         \<and> (\<forall>i<4. \<forall>j<4. L ! i ! j mod 11
                = [[6, 0, 0, 9], [1, 6, 9, 4], [4, 4, 8, 0], [4, 0, 0, 8]] ! i ! j mod 11)
         \<and> ((4::nat) = 1 \<longrightarrow> L = identity_matrix 1))
   \<and> square_mat 2 [[0, 2], [3, 0]] \<and> 1 \<le> (2::nat)
   \<and> det [[0, 2], [3, 0]] mod 7 = 1 mod 7
   \<and> det (fst (snd (smith_form [[0, 2], [3, 0]]))) = - 1
   \<and> (\<exists>L. lift_for_SL [[0, 2], [3, 0]] 7 = Inr L
         \<and> square_mat 2 L \<and> det L = 1
         \<and> (\<forall>i<2. \<forall>j<2. L ! i ! j mod 7 = [[0, 2], [3, 0]] ! i ! j mod 7)
         \<and> ((2::nat) = 1 \<longrightarrow> L = identity_matrix 1))"
proof -
  have h1: "square_mat 4 [[6, 0, 0, 9], [1, 6, 9, 4], [4, 4, 8, 0], [4, 0, 0, 8]]"
    by (simp add: square_mat_def)
  have h2: "1 \<le> (4::nat)" by simp
  have h3: "det [[6, 0, 0, 9], [1, 6, 9, 4], [4, 4, 8, 0], [4, 0, 0, 8]] mod 11 = 1 mod 11"
    by code_simp
  have k1: "square_mat 2 [[0, 2], [3, 0]]" by (simp add: square_mat_def)
  have k2: "1 \<le> (2::nat)" by simp
  have k3: "det [[0, 2], [3, 0]] mod 7 = 1 mod 7" by code_simp
  have k4: "det (fst (snd (smith_form [[0, 2], [3, 0]]))) = - 1" by code_simp
  from lift_for_SL_general_contract [OF h1 h2 h3] lift_for_SL_general_contract [OF k1 k2 k3]
    h1 h2 h3 k1 k2 k3 k4
  show ?thesis by blast
qed

text \<open>
  C9 (termination). On a square matrix with \<open>n\<close> rows \<open>lift_for_SL\<close> returns, a matrix or an
  error: the recursive call is made on a square matrix with \<open>n - 1\<close> rows, and the
  recursion ends at one row. With \<open>k\<close> nested calls allowed the function returns exactly
  when \<open>k\<close> is at least \<open>n\<close> (and at least one, for the matrix without rows, where the single
  call raises): the depth of the recursion is the dimension.
\<close>

theorem lift_for_SL_terminates:
  assumes "square_mat n A"
  shows "lift_for_SL_fuel k A N = (if max 1 n \<le> k then Some (lift_for_SL A N) else None)
       \<and> (2 \<le> n \<longrightarrow> square_mat (n - 1) (sl_reduced (snd (snd (sl_factors A)))))"
proof -
  obtain U V a where f: "sl_factors A = (U, V, a)" by (metis prod_cases3)
  have "length a = n" using sl_factors_length [OF f] assms by (simp add: square_matD)
  then have "square_mat (n - 1) (sl_reduced a)" by (rule square_sl_reduced)
  then show ?thesis using lift_for_SL_fuel_depth [OF assms, of k N] f by simp
qed

theorem lift_for_SL_terminates_witness:
  "square_mat 4 [[6, 0, 0, 9], [1, 6, 9, 4], [4, 4, 8, 0], [4, 0, 0, 8]]
   \<and> lift_for_SL_fuel 4 [[6, 0, 0, 9], [1, 6, 9, 4], [4, 4, 8, 0], [4, 0, 0, 8]] 11
       = Some (lift_for_SL [[6, 0, 0, 9], [1, 6, 9, 4], [4, 4, 8, 0], [4, 0, 0, 8]] 11)
   \<and> lift_for_SL_fuel 3 [[6, 0, 0, 9], [1, 6, 9, 4], [4, 4, 8, 0], [4, 0, 0, 8]] 11 = None
   \<and> square_mat 3
        (sl_reduced (snd (snd (sl_factors [[6, 0, 0, 9], [1, 6, 9, 4], [4, 4, 8, 0], [4, 0, 0, 8]]))))"
proof -
  have h: "square_mat 4 [[6, 0, 0, 9], [1, 6, 9, 4], [4, 4, 8, 0], [4, 0, 0, 8]]"
    by (simp add: square_mat_def)
  show ?thesis
    using lift_for_SL_terminates [OF h, of 4 11] lift_for_SL_terminates [OF h, of 3 11] h
    by simp
qed

end
